theory Spec2Isabelle
  imports Main "HOL-Library.Word"
begin

unbundle bit_operations_syntax

section \<open>Python values shared by the assembler and the emulator\<close>

text \<open>
  Python integers are unbounded, so every byte, address and register is an \<open>int\<close> and
  each \<open>& 0xFF\<close> and \<open>% RAM_SIZE\<close> of the source is written out. The exceptions the
  two programs can raise are values: \<open>IndexError\<close> (a list index out of range),
  \<open>KeyError\<close> (a missing dictionary key), and the four \<open>ValueError\<close>s, told apart by
  their message: \<open>Unknown value\<close>, \<open>Unknown op\<close>, \<open>Unhandled op\<close>, and the invalid
  literal of \<open>int()\<close>.
\<close>

datatype exn =
    IndexError
  | KeyError string
  | UnknownValue string
  | UnknownOp string
  | UnhandledOp string
  | InvalidLiteral string

text \<open>\<open>xs[i]\<close>: a negative index counts from the end, anything else out of range raises.\<close>

definition getitem :: "'a list \<Rightarrow> int \<Rightarrow> exn + 'a" where
  "getitem xs i =
     (let n = int (length xs) in
      if 0 \<le> i \<and> i < n then Inr (xs ! nat i)
      else if - n \<le> i \<and> i < 0 then Inr (xs ! nat (i + n))
      else Inl IndexError)"

text \<open>\<open>xs[i] = v\<close>, with the same index rule.\<close>

definition setitem :: "'a list \<Rightarrow> int \<Rightarrow> 'a \<Rightarrow> exn + 'a list" where
  "setitem xs i v =
     (let n = int (length xs) in
      if 0 \<le> i \<and> i < n then Inr (xs[nat i := v])
      else if - n \<le> i \<and> i < 0 then Inr (xs[nat (i + n) := v])
      else Inl IndexError)"

section \<open>The emulator (emulator.py)\<close>

definition RAM_SIZE :: int where "RAM_SIZE = 256"

text \<open>The entries of the dictionary \<open>OP\<close>, one constant per key.\<close>

definition OP_NOP :: int where "OP_NOP = 0x00"
definition OP_LDI :: int where "OP_LDI = 0x10"
definition OP_MOV :: int where "OP_MOV = 0x11"
definition OP_STR :: int where "OP_STR = 0x12"
definition OP_ADD :: int where "OP_ADD = 0x20"
definition OP_SUB :: int where "OP_SUB = 0x21"
definition OP_JMP :: int where "OP_JMP = 0x30"
definition OP_JZ :: int where "OP_JZ = 0x31"
definition OP_JNZ :: int where "OP_JNZ = 0x32"
definition OP_OUT :: int where "OP_OUT = 0x40"
definition OP_IN :: int where "OP_IN = 0x41"
definition OP_HLT :: int where "OP_HLT = 0xFF"

definition REG_A :: int where "REG_A = 0"
definition REG_B :: int where "REG_B = 1"

text \<open>
  The attributes of class \<open>CPU\<close>, together with the two streams the step reads and writes:
  \<open>stdin\<close> is the list of code points still to be read, \<open>stdout\<close> the text written so far.
\<close>

record CPU =
  ram :: "int list"
  reg :: "int list"
  pc :: int
  zero :: bool
  running :: bool
  trace :: bool
  stdin :: "int list"
  stdout :: string

text \<open>\<open>CPU.__init__\<close>, on a process whose input is \<open>inp\<close>.\<close>

definition CPU_init :: "int list \<Rightarrow> CPU" where
  "CPU_init inp =
     \<lparr>ram = replicate 256 0, reg = [0, 0], pc = 0, zero = False,
      running = False, trace = False, stdin = inp, stdout = []\<rparr>"

text \<open>
  \<open>load_bin\<close>: the loop over \<open>enumerate(data)\<close>. An exception leaves the cells written
  before it in place.
\<close>

fun load_bin_loop :: "int list \<Rightarrow> int \<Rightarrow> int \<Rightarrow> int list \<Rightarrow> (exn + unit) \<times> int list" where
  "load_bin_loop [] addr i r = (Inr (), r)"
| "load_bin_loop (b # bs) addr i r =
     (case setitem r ((addr + i) mod RAM_SIZE) (b AND 0xFF) of
        Inl e \<Rightarrow> (Inl e, r)
      | Inr r' \<Rightarrow> load_bin_loop bs addr (i + 1) r')"

definition load_bin :: "CPU \<Rightarrow> int list \<Rightarrow> int \<Rightarrow> (exn + unit) \<times> CPU" where
  "load_bin s data addr =
     (case load_bin_loop data addr 0 (ram s) of (res, r) \<Rightarrow> (res, s\<lparr>ram := r\<rparr>))"

text \<open>
  The format specification \<open>02X\<close>: upper-case hexadecimal, padded with zeros to two
  characters, the sign of a negative number counting as one of them.
\<close>

fun hexdigits :: "nat \<Rightarrow> string" where
  "hexdigits n =
     (if n < 16 then [''0123456789ABCDEF'' ! n]
      else hexdigits (n div 16) @ [''0123456789ABCDEF'' ! (n mod 16)])"

declare hexdigits.simps [simp del]

definition fmt_02X :: "int \<Rightarrow> string" where
  "fmt_02X x =
     (if x < 0 then CHR ''-'' # hexdigits (nat (- x))
      else let ds = hexdigits (nat x) in replicate (2 - length ds) CHR ''0'' @ ds)"

text \<open>The operand fetch \<open>x = self.ram[self.pc]; self.pc = (self.pc+1)%RAM_SIZE\<close>.\<close>

definition fetch :: "CPU \<Rightarrow> (exn + int) \<times> CPU" where
  "fetch s =
     (case getitem (ram s) (pc s) of
        Inl e \<Rightarrow> (Inl e, s)
      | Inr x \<Rightarrow> (Inr x, s\<lparr>pc := (pc s + 1) mod RAM_SIZE\<rparr>))"

text \<open>\<open>self.zero = (self.reg[REG_A] == 0); return True\<close>, the end of five branches.\<close>

definition set_zero :: "CPU \<Rightarrow> (exn + bool) \<times> CPU" where
  "set_zero s =
     (case getitem (reg s) REG_A of
        Inl e \<Rightarrow> (Inl e, s)
      | Inr a \<Rightarrow> (Inr True, s\<lparr>zero := (a = 0)\<rparr>))"

definition step_LDI :: "CPU \<Rightarrow> (exn + bool) \<times> CPU" where
  "step_LDI s0 =
     (case fetch s0 of (Inl e, s) \<Rightarrow> (Inl e, s) | (Inr r, s) \<Rightarrow>
      (case fetch s of (Inl e, s) \<Rightarrow> (Inl e, s) | (Inr imm, s) \<Rightarrow>
       (case setitem (reg s) r (imm AND 0xFF) of
          Inl e \<Rightarrow> (Inl e, s)
        | Inr rg \<Rightarrow> set_zero (s\<lparr>reg := rg\<rparr>))))"

definition step_MOV :: "CPU \<Rightarrow> (exn + bool) \<times> CPU" where
  "step_MOV s0 =
     (case fetch s0 of (Inl e, s) \<Rightarrow> (Inl e, s) | (Inr r, s) \<Rightarrow>
      (case fetch s of (Inl e, s) \<Rightarrow> (Inl e, s) | (Inr addr, s) \<Rightarrow>
       (case getitem (ram s) addr of
          Inl e \<Rightarrow> (Inl e, s)
        | Inr v \<Rightarrow>
          (case setitem (reg s) r v of
             Inl e \<Rightarrow> (Inl e, s)
           | Inr rg \<Rightarrow> set_zero (s\<lparr>reg := rg\<rparr>)))))"

definition step_STR :: "CPU \<Rightarrow> (exn + bool) \<times> CPU" where
  "step_STR s0 =
     (case fetch s0 of (Inl e, s) \<Rightarrow> (Inl e, s) | (Inr r, s) \<Rightarrow>
      (case fetch s of (Inl e, s) \<Rightarrow> (Inl e, s) | (Inr addr, s) \<Rightarrow>
       (case getitem (reg s) r of
          Inl e \<Rightarrow> (Inl e, s)
        | Inr v \<Rightarrow>
          (case setitem (ram s) addr (v AND 0xFF) of
             Inl e \<Rightarrow> (Inl e, s)
           | Inr rm \<Rightarrow> (Inr True, s\<lparr>ram := rm\<rparr>)))))"

text \<open>\<open>ADD\<close> and \<open>SUB\<close> differ in the operator only.\<close>

definition step_arith :: "(int \<Rightarrow> int \<Rightarrow> int) \<Rightarrow> CPU \<Rightarrow> (exn + bool) \<times> CPU" where
  "step_arith f s0 =
     (case fetch s0 of (Inl e, s) \<Rightarrow> (Inl e, s) | (Inr r1, s) \<Rightarrow>
      (case fetch s of (Inl e, s) \<Rightarrow> (Inl e, s) | (Inr r2, s) \<Rightarrow>
       (case getitem (reg s) r1 of
          Inl e \<Rightarrow> (Inl e, s)
        | Inr v1 \<Rightarrow>
          (case getitem (reg s) r2 of
             Inl e \<Rightarrow> (Inl e, s)
           | Inr v2 \<Rightarrow>
             (case setitem (reg s) REG_A (f v1 v2 AND 0xFF) of
                Inl e \<Rightarrow> (Inl e, s)
              | Inr rg \<Rightarrow> set_zero (s\<lparr>reg := rg\<rparr>))))))"

definition step_JMP :: "CPU \<Rightarrow> (exn + bool) \<times> CPU" where
  "step_JMP s =
     (case getitem (ram s) (pc s) of
        Inl e \<Rightarrow> (Inl e, s)
      | Inr addr \<Rightarrow> (Inr True, s\<lparr>pc := addr mod RAM_SIZE\<rparr>))"

text \<open>\<open>JZ\<close> jumps when the flag equals \<open>True\<close>, \<open>JNZ\<close> when it equals \<open>False\<close>.\<close>

definition step_Jcond :: "bool \<Rightarrow> CPU \<Rightarrow> (exn + bool) \<times> CPU" where
  "step_Jcond want s0 =
     (case fetch s0 of (Inl e, s) \<Rightarrow> (Inl e, s) | (Inr addr, s) \<Rightarrow>
      (if zero s = want then (Inr True, s\<lparr>pc := addr mod RAM_SIZE\<rparr>)
       else (Inr True, s)))"

definition step_OUT :: "CPU \<Rightarrow> (exn + bool) \<times> CPU" where
  "step_OUT s0 =
     (case fetch s0 of (Inl e, s) \<Rightarrow> (Inl e, s) | (Inr r, s) \<Rightarrow>
      (case getitem (reg s) r of
         Inl e \<Rightarrow> (Inl e, s)
       | Inr v \<Rightarrow> (Inr True, s\<lparr>stdout := stdout s @ [char_of (v AND 0xFF)]\<rparr>)))"

text \<open>\<open>sys.stdin.read(1)\<close>: the empty string at the end of the input, read as 0.\<close>

definition step_IN :: "CPU \<Rightarrow> (exn + bool) \<times> CPU" where
  "step_IN s0 =
     (case fetch s0 of (Inl e, s) \<Rightarrow> (Inl e, s) | (Inr r, s) \<Rightarrow>
      (let (val, s) = (case stdin s of [] \<Rightarrow> (0, s) | c # cs \<Rightarrow> (c, s\<lparr>stdin := cs\<rparr>)) in
       (case setitem (reg s) r (val AND 0xFF) of
          Inl e \<Rightarrow> (Inl e, s)
        | Inr rg \<Rightarrow> set_zero (s\<lparr>reg := rg\<rparr>))))"

text \<open>
  The head of \<open>CPU.step\<close>: read the opcode at the program counter, print the trace
  line when tracing is on, and advance the program counter.
\<close>

definition fetch_opcode :: "CPU \<Rightarrow> (exn + int) \<times> CPU" where
  "fetch_opcode s =
     (case getitem (ram s) (pc s) of
        Inl e \<Rightarrow> (Inl e, s)
      | Inr opcode \<Rightarrow>
        (let s1 = (if trace s
                   then s\<lparr>stdout := stdout s @ ''[PC='' @ fmt_02X (pc s) @ ''] OPCODE ''
                                     @ fmt_02X opcode @ [CHR 0x0A]\<rparr>
                   else s)
         in (Inr opcode, s1\<lparr>pc := (pc s1 + 1) mod RAM_SIZE\<rparr>)))"

text \<open>
  \<open>CPU.step\<close>. The result is the value returned (\<open>True\<close> to continue, \<open>False\<close> to halt) or
  the exception raised, with the state as the call leaves it.
\<close>

definition step :: "CPU \<Rightarrow> (exn + bool) \<times> CPU" where
  "step s0 =
     (case fetch_opcode s0 of
        (Inl e, s) \<Rightarrow> (Inl e, s)
      | (Inr opcode, s) \<Rightarrow>
         if opcode = OP_NOP then (Inr True, s)
         else if opcode = OP_LDI then step_LDI s
         else if opcode = OP_MOV then step_MOV s
         else if opcode = OP_STR then step_STR s
         else if opcode = OP_ADD then step_arith (+) s
         else if opcode = OP_SUB then step_arith (-) s
         else if opcode = OP_JMP then step_JMP s
         else if opcode = OP_JZ then step_Jcond True s
         else if opcode = OP_JNZ then step_Jcond False s
         else if opcode = OP_OUT then step_OUT s
         else if opcode = OP_IN then step_IN s
         else if opcode = OP_HLT then (Inr False, s)
         else (Inr False,
               s\<lparr>stdout := stdout s @ ''Unknown opcode '' @ fmt_02X opcode @ '' at ''
                                @ fmt_02X (pc s - 1) @ [CHR 0x0A]\<rparr>))"

text \<open>
  \<open>CPU.run\<close>: the loop has no bound, so it is a partial function and \<open>None\<close> is the run
  that never halts.
\<close>

partial_function (option) run_loop :: "CPU \<Rightarrow> ((exn + unit) \<times> CPU) option" where
  "run_loop s =
     (case step s of
        (Inl e, s') \<Rightarrow> Some (Inl e, s')
      | (Inr cont, s') \<Rightarrow> if cont then run_loop s' else Some (Inr (), s'))"

definition run :: "CPU \<Rightarrow> int \<Rightarrow> bool \<Rightarrow> ((exn + unit) \<times> CPU) option" where
  "run s start tr =
     (case run_loop (s\<lparr>pc := start mod RAM_SIZE, trace := tr, running := True\<rparr>) of
        None \<Rightarrow> None
      | Some (Inl e, s') \<Rightarrow> Some (Inl e, s')
      | Some (Inr u, s') \<Rightarrow> Some (Inr u, s'\<lparr>running := False\<rparr>))"

text \<open>
  The state the emulator keeps: 256 memory cells and two registers, each a byte, and a
  program counter that is a byte.
\<close>

definition is_byte :: "int \<Rightarrow> bool" where
  "is_byte b = (0 \<le> b \<and> b < 256)"

definition cpu_ok :: "CPU \<Rightarrow> bool" where
  "cpu_ok s =
     (length (ram s) = 256 \<and> length (reg s) = 2 \<and> is_byte (pc s)
      \<and> list_all is_byte (ram s) \<and> list_all is_byte (reg s))"

text \<open>
  The states in which a register operand selects no register: the opcode at the program
  counter takes register operands and one of them is 2 or more.
\<close>

definition reg_operand_fault :: "CPU \<Rightarrow> bool" where
  "reg_operand_fault s =
     (let opcode = ram s ! nat (pc s);
          r1 = ram s ! nat ((pc s + 1) mod 256);
          r2 = ram s ! nat ((pc s + 2) mod 256)
      in ((opcode = OP_LDI \<or> opcode = OP_MOV \<or> opcode = OP_STR \<or> opcode = OP_OUT
           \<or> opcode = OP_IN) \<and> 2 \<le> r1)
         \<or> ((opcode = OP_ADD \<or> opcode = OP_SUB) \<and> (2 \<le> r1 \<or> 2 \<le> r2)))"

section \<open>The assembler (asm.py)\<close>

subsection \<open>Python strings\<close>

text \<open>
  A \<open>str\<close> is a \<open>string\<close>, so the model covers source text whose code points are below
  256. \<open>isspace\<close> and \<open>isdigit\<close> are Python's on that range. \<open>upper\<close> is Python's
  too, for the ASCII letters, the accented letters 224 to 254 and the sharp s (223, which
  becomes \<open>SS\<close>); the capitals of the two remaining letters, 181 and 255, lie above 255,
  and the model leaves these two as they are, which changes no comparison with a mnemonic
  or a register name.
  \<open>int()\<close> refuses a decimal literal of more than 4300 digits in recent interpreters;
  that limit is a setting of the interpreter and is left out.
\<close>

definition SQ :: char where "SQ = CHR 0x27"
definition DQ :: char where "DQ = CHR 0x22"

definition isspace :: "char \<Rightarrow> bool" where
  "isspace c = (of_char c \<in> {9, 10, 11, 12, 13, 28, 29, 30, 31, 32, 133, 160 :: nat})"

definition strip :: "string \<Rightarrow> string" where
  "strip s = rev (dropWhile isspace (rev (dropWhile isspace s)))"

text \<open>\<open>s.rstrip(',')\<close>.\<close>

definition rstrip_comma :: "string \<Rightarrow> string" where
  "rstrip_comma s = rev (dropWhile (\<lambda>c. c = CHR '','') (rev s))"

definition startswith :: "string \<Rightarrow> string \<Rightarrow> bool" where
  "startswith s p = (take (length p) s = p)"

definition endswith :: "string \<Rightarrow> string \<Rightarrow> bool" where
  "endswith s p = (length p \<le> length s \<and> drop (length s - length p) s = p)"

definition upper_char :: "char \<Rightarrow> string" where
  "upper_char c =
     (let n = (of_char c :: nat) in
      if (97 \<le> n \<and> n \<le> 122) \<or> (224 \<le> n \<and> n \<le> 254 \<and> n \<noteq> 247) then [char_of (n - 32)]
      else if n = 223 then ''SS''
      else [c])"

definition upper :: "string \<Rightarrow> string" where
  "upper s = concat (map upper_char s)"

definition isdigit_char :: "char \<Rightarrow> bool" where
  "isdigit_char c =
     (let n = (of_char c :: nat) in (48 \<le> n \<and> n \<le> 57) \<or> n = 178 \<or> n = 179 \<or> n = 185)"

definition isdigit :: "string \<Rightarrow> bool" where
  "isdigit s = (s \<noteq> [] \<and> list_all isdigit_char s)"

text \<open>\<open>s.split(sep)\<close> for a one-character separator: never the empty list.\<close>

fun split_on :: "char \<Rightarrow> string \<Rightarrow> string list" where
  "split_on sep [] = [[]]"
| "split_on sep (c # cs) =
     (if c = sep then [] # split_on sep cs
      else (case split_on sep cs of [] \<Rightarrow> [[c]] | w # ws \<Rightarrow> (c # w) # ws))"

text \<open>\<open>' '.join(xs)\<close>.\<close>

fun join_space :: "string list \<Rightarrow> string" where
  "join_space [] = []"
| "join_space [x] = x"
| "join_space (x # y # ys) = x @ '' '' @ join_space (y # ys)"

text \<open>
  \<open>int(token, base)\<close> for base 10 and 16 on a token without surrounding white space: an
  optional sign, for base 16 an optional \<open>0x\<close> and one underscore after it, then digits
  with single underscores between them.
\<close>

definition digit_value :: "char \<Rightarrow> nat" where
  "digit_value c =
     (let n = (of_char c :: nat) in
      if 48 \<le> n \<and> n \<le> 57 then n - 48
      else if 97 \<le> n \<and> n \<le> 122 then n - 87
      else if 65 \<le> n \<and> n \<le> 90 then n - 55
      else 37)"

fun no_double_underscore :: "string \<Rightarrow> bool" where
  "no_double_underscore (a # b # cs) =
     (\<not> (a = CHR ''_'' \<and> b = CHR ''_'') \<and> no_double_underscore (b # cs))"
| "no_double_underscore cs = True"

definition int_body_ok :: "nat \<Rightarrow> string \<Rightarrow> bool" where
  "int_body_ok base body =
     (body \<noteq> [] \<and> hd body \<noteq> CHR ''_'' \<and> last body \<noteq> CHR ''_''
      \<and> list_all (\<lambda>c. c = CHR ''_'' \<or> digit_value c < base) body
      \<and> no_double_underscore body)"

definition int_body_value :: "nat \<Rightarrow> string \<Rightarrow> int" where
  "int_body_value base body =
     foldl (\<lambda>acc c. if c = CHR ''_'' then acc else acc * int base + int (digit_value c)) 0 body"

definition py_int :: "string \<Rightarrow> nat \<Rightarrow> exn + int" where
  "py_int tok base =
     (let (neg, t1) =
            (if tok \<noteq> [] \<and> hd tok = CHR ''-'' then (True, tl tok)
             else if tok \<noteq> [] \<and> hd tok = CHR ''+'' then (False, tl tok)
             else (False, tok));
          t2 = (if base = 16 \<and> (startswith t1 ''0x'' \<or> startswith t1 ''0X'')
                then (let r = drop 2 t1 in if r \<noteq> [] \<and> hd r = CHR ''_'' then tl r else r)
                else t1)
      in if int_body_ok base t2
         then Inr (if neg then - int_body_value base t2 else int_body_value base t2)
         else Inl (InvalidLiteral tok))"

subsection \<open>tokenize\<close>

text \<open>
  The loop over the characters of the line, with its four variables. \<open>quote_char\<close> is a
  string, empty until the first quote is seen.
\<close>

fun tokenize_loop ::
  "string \<Rightarrow> string list \<Rightarrow> string \<Rightarrow> bool \<Rightarrow> string \<Rightarrow> string list \<times> string" where
  "tokenize_loop [] tokens current in_quote quote_char = (tokens, current)"
| "tokenize_loop (ch # rest) tokens current in_quote quote_char =
     (if in_quote then
        (if [ch] = quote_char
         then tokenize_loop rest tokens (current @ [ch]) False quote_char
         else tokenize_loop rest tokens (current @ [ch]) True quote_char)
      else if ch = DQ \<or> ch = SQ then
        tokenize_loop rest tokens (current @ [ch]) True [ch]
      else if ch = CHR '' '' \<or> ch = CHR 0x09 \<or> ch = CHR '','' then
        (if current \<noteq> []
         then tokenize_loop rest (tokens @ [current]) [] False quote_char
         else tokenize_loop rest tokens current False quote_char)
      else tokenize_loop rest tokens (current @ [ch]) False quote_char)"

definition tokenize :: "string \<Rightarrow> string list" where
  "tokenize line0 =
     (let line = strip (takeWhile (\<lambda>c. c \<noteq> CHR '';'') line0) in
      if line = [] then []
      else (case tokenize_loop line [] [] False [] of
              (tokens, current) \<Rightarrow> if current \<noteq> [] then tokens @ [current] else tokens))"

subsection \<open>parse_value\<close>

definition parse_value :: "string \<Rightarrow> (string \<rightharpoonup> int) \<Rightarrow> exn + int" where
  "parse_value token0 labels =
     (let token = strip token0 in
      if startswith token [SQ] \<and> endswith token [SQ] \<and> length token = 3
      then Inr (of_char (token ! 1))
      else if startswith token ''0x'' then py_int token 16
      else if isdigit token \<or> (startswith token ''-'' \<and> isdigit (tl token))
      then (case py_int token 10 of Inl e \<Rightarrow> Inl e | Inr v \<Rightarrow> Inr (v AND 0xFF))
      else (case labels token of
              Some v \<Rightarrow> Inr v
            | None \<Rightarrow> Inl (UnknownValue token)))"

subsection \<open>assemble\<close>

definition REGS :: "string \<rightharpoonup> int" where
  "REGS = [''A'' \<mapsto> 0, ''B'' \<mapsto> 1]"

text \<open>\<open>REGS[reg]\<close>.\<close>

definition REGS_get :: "string \<Rightarrow> exn + int" where
  "REGS_get r = (case REGS r of None \<Rightarrow> Inl (KeyError r) | Some v \<Rightarrow> Inr v)"

text \<open>The size estimate of the first pass.\<close>

definition size_estimate :: "string \<Rightarrow> string list \<Rightarrow> exn + int" where
  "size_estimate op toks =
     (if op = ''DB'' then Inr (int (length (split_on CHR '','' (join_space (tl toks)))))
      else if op = ''LDI'' \<or> op = ''MOV'' \<or> op = ''STR'' then Inr 3
      else if op = ''ADD'' \<or> op = ''SUB'' then Inr 3
      else if op = ''JMP'' \<or> op = ''JZ'' \<or> op = ''JNZ'' then Inr 2
      else if op = ''OUT'' \<or> op = ''IN'' then Inr 2
      else if op = ''NOP'' \<or> op = ''HLT'' then Inr 1
      else Inl (UnknownOp op))"

text \<open>
  The first pass: the label table, the address counter (\<open>pc\<close> in the source) and the
  parsed instructions, each with the address the pass gives it.
\<close>

fun pass1 ::
  "string list \<Rightarrow> (string \<rightharpoonup> int) \<Rightarrow> int \<Rightarrow> (int \<times> string \<times> string list) list
   \<Rightarrow> exn + ((string \<rightharpoonup> int) \<times> (int \<times> string \<times> string list) list)" where
  "pass1 [] labels cnt parsed = Inr (labels, parsed)"
| "pass1 (raw # rest) labels cnt parsed =
     (let line = strip raw in
      if line = [] \<or> startswith line '';'' then pass1 rest labels cnt parsed
      else if endswith line '':'' then
        pass1 rest (labels(strip (butlast line) \<mapsto> cnt)) cnt parsed
      else
        (let toks = tokenize line in
         if toks = [] then pass1 rest labels cnt parsed
         else
           (let op = upper (hd toks) in
            case size_estimate op toks of
              Inl e \<Rightarrow> Inl e
            | Inr n \<Rightarrow> pass1 rest labels (cnt + n) (parsed @ [(cnt, op, tl toks)]))))"

text \<open>The bytes of a \<open>DB\<close> line, token by token.\<close>

fun db_bytes :: "(string \<rightharpoonup> int) \<Rightarrow> string list \<Rightarrow> exn + int list" where
  "db_bytes labels [] = Inr []"
| "db_bytes labels (tok0 # rest) =
     (let tok = strip tok0 in
      if startswith tok [DQ] \<and> endswith tok [DQ] then
        (case db_bytes labels rest of
           Inl e \<Rightarrow> Inl e
         | Inr bs \<Rightarrow> Inr (map (\<lambda>ch. of_char ch AND 0xFF) (butlast (tl tok)) @ bs))
      else
        (case parse_value tok labels of
           Inl e \<Rightarrow> Inl e
         | Inr v \<Rightarrow>
           (case db_bytes labels rest of
              Inl e \<Rightarrow> Inl e
            | Inr bs \<Rightarrow> Inr ((v AND 0xFF) # bs))))"

definition data_tokens :: "string list \<Rightarrow> string list" where
  "data_tokens args = concat (map (\<lambda>a. filter (\<lambda>x. x \<noteq> []) (split_on CHR '','' a)) args)"

text \<open>\<open>LDI\<close>, \<open>MOV\<close> and \<open>STR\<close>: a register and a value.\<close>

definition emit_reg_value :: "int \<Rightarrow> (string \<rightharpoonup> int) \<Rightarrow> string list \<Rightarrow> exn + int list" where
  "emit_reg_value opc labels args =
     (case getitem args 0 of Inl e \<Rightarrow> Inl e | Inr a0 \<Rightarrow>
      (case getitem args 1 of Inl e \<Rightarrow> Inl e | Inr a1 \<Rightarrow>
       (case REGS_get (upper (rstrip_comma (strip a0))) of Inl e \<Rightarrow> Inl e | Inr r \<Rightarrow>
        (case parse_value (strip a1) labels of Inl e \<Rightarrow> Inl e | Inr v \<Rightarrow>
           Inr [opc, r, v AND 0xFF]))))"

text \<open>\<open>ADD\<close> and \<open>SUB\<close>: two registers.\<close>

definition emit_reg_reg :: "int \<Rightarrow> string list \<Rightarrow> exn + int list" where
  "emit_reg_reg opc args =
     (case getitem args 0 of Inl e \<Rightarrow> Inl e | Inr a0 \<Rightarrow>
      (case getitem args 1 of Inl e \<Rightarrow> Inl e | Inr a1 \<Rightarrow>
       (case REGS_get (upper (rstrip_comma (strip a0))) of Inl e \<Rightarrow> Inl e | Inr r1 \<Rightarrow>
        (case REGS_get (upper (strip a1)) of Inl e \<Rightarrow> Inl e | Inr r2 \<Rightarrow>
           Inr [opc, r1, r2]))))"

text \<open>\<open>JMP\<close>, \<open>JZ\<close> and \<open>JNZ\<close>: an address.\<close>

definition emit_jump :: "int \<Rightarrow> (string \<rightharpoonup> int) \<Rightarrow> string list \<Rightarrow> exn + int list" where
  "emit_jump opc labels args =
     (case getitem args 0 of Inl e \<Rightarrow> Inl e | Inr a0 \<Rightarrow>
      (case parse_value (strip a0) labels of Inl e \<Rightarrow> Inl e | Inr v \<Rightarrow>
         Inr [opc, v AND 0xFF]))"

text \<open>\<open>OUT\<close> and \<open>IN\<close>: a register.\<close>

definition emit_reg :: "int \<Rightarrow> string list \<Rightarrow> exn + int list" where
  "emit_reg opc args =
     (case getitem args 0 of Inl e \<Rightarrow> Inl e | Inr a0 \<Rightarrow>
      (case REGS_get (upper (strip a0)) of Inl e \<Rightarrow> Inl e | Inr r \<Rightarrow>
         Inr [opc, r]))"

text \<open>The body of the second loop: the bytes of one parsed instruction.\<close>

definition emit :: "(string \<rightharpoonup> int) \<Rightarrow> int \<times> string \<times> string list \<Rightarrow> exn + int list" where
  "emit labels ins =
     (case ins of (addr, op, args) \<Rightarrow>
      (let uop = upper op in
       if uop = ''DB'' then db_bytes labels (data_tokens args)
       else if uop = ''LDI'' then emit_reg_value OP_LDI labels args
       else if uop = ''MOV'' then emit_reg_value OP_MOV labels args
       else if uop = ''STR'' then emit_reg_value OP_STR labels args
       else if uop = ''ADD'' then emit_reg_reg OP_ADD args
       else if uop = ''SUB'' then emit_reg_reg OP_SUB args
       else if uop = ''JMP'' then emit_jump OP_JMP labels args
       else if uop = ''JZ'' then emit_jump OP_JZ labels args
       else if uop = ''JNZ'' then emit_jump OP_JNZ labels args
       else if uop = ''OUT'' then emit_reg OP_OUT args
       else if uop = ''IN'' then emit_reg OP_IN args
       else if uop = ''NOP'' then Inr [OP_NOP]
       else if uop = ''HLT'' then Inr [OP_HLT]
       else Inl (UnhandledOp uop)))"

fun pass2 ::
  "(string \<rightharpoonup> int) \<Rightarrow> (int \<times> string \<times> string list) list \<Rightarrow> int list \<Rightarrow> exn + int list" where
  "pass2 labels [] out = Inr out"
| "pass2 labels (ins # rest) out =
     (case emit labels ins of
        Inl e \<Rightarrow> Inl e
      | Inr bs \<Rightarrow> pass2 labels rest (out @ bs))"

definition assemble :: "string list \<Rightarrow> exn + int list" where
  "assemble lines =
     (case pass1 lines Map.empty 0 [] of
        Inl e \<Rightarrow> Inl e
      | Inr (labels, parsed) \<Rightarrow> pass2 labels parsed [])"

text \<open>The address the first pass binds to a label, if the pass succeeds.\<close>

definition label_address :: "string list \<Rightarrow> string \<Rightarrow> int option" where
  "label_address lines name =
     (case pass1 lines Map.empty 0 [] of
        Inl e \<Rightarrow> None
      | Inr (labels, parsed) \<Rightarrow> labels name)"

text \<open>
  Where a text leaves a reader of quotes: outside any quote (\<open>None\<close>) or inside one
  opened by the given character. \<open>loop_matches\<close> relates it to the two quoting variables
  of the loop of \<open>tokenize\<close>.
\<close>

fun quote_state :: "char option \<Rightarrow> string \<Rightarrow> char option" where
  "quote_state st [] = st"
| "quote_state None (c # cs) =
     (if c = DQ \<or> c = SQ then quote_state (Some c) cs else quote_state None cs)"
| "quote_state (Some q) (c # cs) =
     (if c = q then quote_state None cs else quote_state (Some q) cs)"

fun loop_matches :: "char option \<Rightarrow> bool \<Rightarrow> string \<Rightarrow> bool" where
  "loop_matches None inq qc = (\<not> inq)"
| "loop_matches (Some q) inq qc = (inq \<and> qc = [q])"

text \<open>
  The tokens \<open>parse_value\<close> reads as a character or a number before it looks at the
  labels: a token of another shape is a reference to a label.
\<close>

definition literal_shaped :: "string \<Rightarrow> bool" where
  "literal_shaped t =
     ((startswith t [SQ] \<and> endswith t [SQ] \<and> length t = 3)
      \<or> startswith t ''0x''
      \<or> isdigit t
      \<or> (startswith t ''-'' \<and> isdigit (tl t)))"

text \<open>A character that neither separates tokens, nor quotes, nor starts a comment.\<close>

definition word_char :: "char \<Rightarrow> bool" where
  "word_char c = (\<not> isspace c \<and> c \<noteq> CHR '','' \<and> c \<noteq> CHR '';'' \<and> c \<noteq> SQ \<and> c \<noteq> DQ)"

section \<open>The instruction set of the specification\<close>

text \<open>
  Modelled from the spec: the instructions with their operands (section 4.1), a source
  line for each, and the state that section 4.3 predicts after one step from address 0.
  They are the specification's side of the round trip; the assembler and the emulator
  above are the code's side.
\<close>

datatype regname = RegA | RegB

datatype instr =
    I_NOP
  | I_LDI regname nat
  | I_MOV regname nat
  | I_STR regname nat
  | I_ADD regname regname
  | I_SUB regname regname
  | I_JMP nat
  | I_JZ nat
  | I_JNZ nat
  | I_OUT regname
  | I_IN regname
  | I_HLT

text \<open>An immediate and an address are one byte.\<close>

fun operands_valid :: "instr \<Rightarrow> bool" where
  "operands_valid (I_LDI r n) = (n < 256)"
| "operands_valid (I_MOV r n) = (n < 256)"
| "operands_valid (I_STR r n) = (n < 256)"
| "operands_valid (I_JMP n) = (n < 256)"
| "operands_valid (I_JZ n) = (n < 256)"
| "operands_valid (I_JNZ n) = (n < 256)"
| "operands_valid i = True"

fun reg_token :: "regname \<Rightarrow> string" where
  "reg_token RegA = ''A''"
| "reg_token RegB = ''B''"

fun reg_index :: "regname \<Rightarrow> nat" where
  "reg_index RegA = 0"
| "reg_index RegB = 1"

text \<open>A number in decimal, as it is written in a source line.\<close>

fun decimal :: "nat \<Rightarrow> string" where
  "decimal n =
     (if n < 10 then [''0123456789'' ! n]
      else decimal (n div 10) @ [''0123456789'' ! (n mod 10)])"

declare decimal.simps [simp del]

fun source_line :: "instr \<Rightarrow> string" where
  "source_line I_NOP = ''NOP''"
| "source_line (I_LDI r n) = ''LDI '' @ reg_token r @ '', '' @ decimal n"
| "source_line (I_MOV r n) = ''MOV '' @ reg_token r @ '', '' @ decimal n"
| "source_line (I_STR r n) = ''STR '' @ reg_token r @ '', '' @ decimal n"
| "source_line (I_ADD r1 r2) = ''ADD '' @ reg_token r1 @ '', '' @ reg_token r2"
| "source_line (I_SUB r1 r2) = ''SUB '' @ reg_token r1 @ '', '' @ reg_token r2"
| "source_line (I_JMP n) = ''JMP '' @ decimal n"
| "source_line (I_JZ n) = ''JZ '' @ decimal n"
| "source_line (I_JNZ n) = ''JNZ '' @ decimal n"
| "source_line (I_OUT r) = ''OUT '' @ reg_token r"
| "source_line (I_IN r) = ''IN '' @ reg_token r"
| "source_line I_HLT = ''HLT''"

text \<open>Section 4.1: the opcode byte, then one byte for each operand.\<close>

fun encoding :: "instr \<Rightarrow> int list" where
  "encoding I_NOP = [0x00]"
| "encoding (I_LDI r n) = [0x10, int (reg_index r), int n]"
| "encoding (I_MOV r n) = [0x11, int (reg_index r), int n]"
| "encoding (I_STR r n) = [0x12, int (reg_index r), int n]"
| "encoding (I_ADD r1 r2) = [0x20, int (reg_index r1), int (reg_index r2)]"
| "encoding (I_SUB r1 r2) = [0x21, int (reg_index r1), int (reg_index r2)]"
| "encoding (I_JMP n) = [0x30, int n]"
| "encoding (I_JZ n) = [0x31, int n]"
| "encoding (I_JNZ n) = [0x32, int n]"
| "encoding (I_OUT r) = [0x40, int (reg_index r)]"
| "encoding (I_IN r) = [0x41, int (reg_index r)]"
| "encoding I_HLT = [0xFF]"

text \<open>
  Section 4.3: the registers, the zero flag and the program counter after the
  instruction, executed at address 0 in the state \<open>s\<close>, and whether the machine goes on.
\<close>

fun predicted :: "instr \<Rightarrow> CPU \<Rightarrow> int list \<times> bool \<times> int" where
  "predicted I_NOP s = (reg s, zero s, 1)"
| "predicted (I_LDI r n) s =
     (let rg = (reg s)[reg_index r := int n] in (rg, rg ! 0 = 0, 3))"
| "predicted (I_MOV r n) s =
     (let rg = (reg s)[reg_index r := ram s ! n] in (rg, rg ! 0 = 0, 3))"
| "predicted (I_STR r n) s = (reg s, zero s, 3)"
| "predicted (I_ADD r1 r2) s =
     (let rg = (reg s)[0 := (reg s ! reg_index r1 + reg s ! reg_index r2) mod 256]
      in (rg, rg ! 0 = 0, 3))"
| "predicted (I_SUB r1 r2) s =
     (let rg = (reg s)[0 := (reg s ! reg_index r1 - reg s ! reg_index r2) mod 256]
      in (rg, rg ! 0 = 0, 3))"
| "predicted (I_JMP n) s = (reg s, zero s, int n)"
| "predicted (I_JZ n) s = (reg s, zero s, if zero s then int n else 2)"
| "predicted (I_JNZ n) s = (reg s, zero s, if zero s then 2 else int n)"
| "predicted (I_OUT r) s = (reg s, zero s, 2)"
| "predicted (I_IN r) s =
     (let rg = (reg s)[reg_index r := (case stdin s of [] \<Rightarrow> 0 | c # cs \<Rightarrow> c mod 256)]
      in (rg, rg ! 0 = 0, 2))"
| "predicted I_HLT s = (reg s, zero s, 1)"

fun continues :: "instr \<Rightarrow> bool" where
  "continues I_HLT = False"
| "continues i = True"

section \<open>Properties of the emulator\<close>

lemmas OP_defs =
  OP_NOP_def OP_LDI_def OP_MOV_def OP_STR_def OP_ADD_def OP_SUB_def
  OP_JMP_def OP_JZ_def OP_JNZ_def OP_OUT_def OP_IN_def OP_HLT_def


lemma and255: "(x::int) AND 0xFF = x mod 256"
  using take_bit_eq_mask[of 8 x] by (simp add: take_bit_eq_mod mask_eq_exp_minus_1)

lemma is_byte_and: "is_byte (x AND 0xFF)"
  by (simp add: and255 is_byte_def)

lemma is_byte_mod: "is_byte (x mod RAM_SIZE)"
  by (simp add: is_byte_def RAM_SIZE_def)

lemma getitem_byte:
  "list_all is_byte xs \<Longrightarrow> getitem xs i = Inr v \<Longrightarrow> is_byte v"
  by (auto simp: getitem_def Let_def list_all_length split: if_splits)

lemma setitem_byte:
  "list_all is_byte xs \<Longrightarrow> is_byte v \<Longrightarrow> setitem xs i v = Inr ys \<Longrightarrow>
   list_all is_byte ys \<and> length ys = length xs"
  by (auto simp: setitem_def Let_def list_all_length nth_list_update split: if_splits)

lemma cpu_ok_pc: "cpu_ok s \<Longrightarrow> is_byte p \<Longrightarrow> cpu_ok (s\<lparr>pc := p\<rparr>)"
  by (simp add: cpu_ok_def)

lemma cpu_ok_stdout: "cpu_ok s \<Longrightarrow> cpu_ok (s\<lparr>stdout := t\<rparr>)"
  by (simp add: cpu_ok_def)

lemma cpu_ok_stdin: "cpu_ok s \<Longrightarrow> cpu_ok (s\<lparr>stdin := t\<rparr>)"
  by (simp add: cpu_ok_def)

lemma cpu_ok_zero: "cpu_ok s \<Longrightarrow> cpu_ok (s\<lparr>zero := z\<rparr>)"
  by (simp add: cpu_ok_def)

lemma cpu_ok_reg:
  "cpu_ok s \<Longrightarrow> is_byte v \<Longrightarrow> setitem (reg s) i v = Inr rg \<Longrightarrow> cpu_ok (s\<lparr>reg := rg\<rparr>)"
  using setitem_byte[of "reg s" v i rg] by (simp add: cpu_ok_def)

lemma cpu_ok_ram:
  "cpu_ok s \<Longrightarrow> is_byte v \<Longrightarrow> setitem (ram s) i v = Inr rm \<Longrightarrow> cpu_ok (s\<lparr>ram := rm\<rparr>)"
  using setitem_byte[of "ram s" v i rm] by (simp add: cpu_ok_def)

lemma fetch_inv:
  "cpu_ok s \<Longrightarrow> fetch s = (r, s') \<Longrightarrow> cpu_ok s' \<and> (\<forall>x. r = Inr x \<longrightarrow> is_byte x)"
  by (auto simp: fetch_def cpu_ok_pc is_byte_mod split: sum.splits
           dest: getitem_byte[rotated] simp: cpu_ok_def)

lemma set_zero_inv: "cpu_ok s \<Longrightarrow> cpu_ok (snd (set_zero s))"
  by (auto simp: set_zero_def cpu_ok_zero split: sum.splits)

lemma step_LDI_inv: "cpu_ok s \<Longrightarrow> cpu_ok (snd (step_LDI s))"
  by (auto simp: step_LDI_def set_zero_inv is_byte_and split: prod.splits sum.splits
           dest!: fetch_inv[rotated] dest: cpu_ok_reg[rotated 2])

lemma ram_getitem_byte: "cpu_ok s \<Longrightarrow> getitem (ram s) i = Inr v \<Longrightarrow> is_byte v"
  by (auto simp: cpu_ok_def dest: getitem_byte)

lemma is_byte_0: "is_byte 0"
  by (simp add: is_byte_def)

lemma step_MOV_inv: "cpu_ok s \<Longrightarrow> cpu_ok (snd (step_MOV s))"
  by (auto simp: step_MOV_def set_zero_inv split: prod.splits sum.splits
           dest!: fetch_inv[rotated] ram_getitem_byte[rotated]
           dest: cpu_ok_reg[rotated 2])

lemma step_STR_inv: "cpu_ok s \<Longrightarrow> cpu_ok (snd (step_STR s))"
  by (auto simp: step_STR_def is_byte_and split: prod.splits sum.splits
           dest!: fetch_inv[rotated] dest: cpu_ok_ram[rotated 2])

lemma step_arith_inv: "cpu_ok s \<Longrightarrow> cpu_ok (snd (step_arith f s))"
  by (auto simp: step_arith_def set_zero_inv is_byte_and split: prod.splits sum.splits
           dest!: fetch_inv[rotated] dest: cpu_ok_reg[rotated 2])

lemma step_JMP_inv: "cpu_ok s \<Longrightarrow> cpu_ok (snd (step_JMP s))"
  by (auto simp: step_JMP_def cpu_ok_pc is_byte_mod split: sum.splits)

lemma step_Jcond_inv: "cpu_ok s \<Longrightarrow> cpu_ok (snd (step_Jcond w s))"
  by (auto simp: step_Jcond_def cpu_ok_pc is_byte_mod split: prod.splits sum.splits
           dest!: fetch_inv[rotated])

lemma step_OUT_inv: "cpu_ok s \<Longrightarrow> cpu_ok (snd (step_OUT s))"
  by (auto simp: step_OUT_def cpu_ok_stdout split: prod.splits sum.splits
           dest!: fetch_inv[rotated])

lemma step_IN_inv: "cpu_ok s \<Longrightarrow> cpu_ok (snd (step_IN s))"
  by (auto simp: step_IN_def set_zero_inv is_byte_and is_byte_0 cpu_ok_stdin
           split: prod.splits sum.splits list.splits
           dest!: fetch_inv[rotated] dest: cpu_ok_reg[rotated 2])

lemma fetch_opcode_inv:
  "cpu_ok s \<Longrightarrow> fetch_opcode s = (r, s') \<Longrightarrow> cpu_ok s'"
  by (auto simp: fetch_opcode_def Let_def cpu_ok_pc cpu_ok_stdout is_byte_mod
           split: sum.splits if_splits)

lemma step_inv: "cpu_ok s \<Longrightarrow> cpu_ok (snd (step s))"
proof -
  assume ok: "cpu_ok s"
  obtain r s1 where f: "fetch_opcode s = (r, s1)"
    by (cases "fetch_opcode s")
  have ok1: "cpu_ok s1"
    using fetch_opcode_inv[OF ok f] .
  show ?thesis
  proof (cases r)
    case (Inl e)
    then show ?thesis using ok1 f by (simp add: step_def)
  next
    case (Inr opcode)
    then show ?thesis
      using ok1 f
      by (simp add: step_def step_LDI_inv step_MOV_inv step_STR_inv step_arith_inv
          step_JMP_inv step_Jcond_inv step_OUT_inv step_IN_inv cpu_ok_stdout)
  qed
qed

lemma load_bin_loop_inv:
  "list_all is_byte r \<Longrightarrow>
   list_all is_byte (snd (load_bin_loop data addr i r))
   \<and> length (snd (load_bin_loop data addr i r)) = length r"
proof (induction data arbitrary: i r)
  case Nil
  then show ?case by simp
next
  case (Cons b bs)
  show ?case
  proof (cases "setitem r ((addr + i) mod RAM_SIZE) (b AND 0xFF)")
    case (Inl e)
    then show ?thesis using Cons.prems by simp
  next
    case (Inr r')
    with setitem_byte[OF Cons.prems is_byte_and Inr] Cons.IH[of r' "i + 1"]
    show ?thesis by simp
  qed
qed

lemma load_bin_inv: "cpu_ok s \<Longrightarrow> cpu_ok (snd (load_bin s data addr))"
  using load_bin_loop_inv[of "ram s" data addr 0]
  by (simp add: load_bin_def cpu_ok_def case_prod_beta)

lemma getitem_in: "0 \<le> i \<Longrightarrow> i < int (length xs) \<Longrightarrow> getitem xs i = Inr (xs ! nat i)"
  by (simp add: getitem_def)

lemma setitem_in: "0 \<le> i \<Longrightarrow> i < int (length xs) \<Longrightarrow> setitem xs i v = Inr (xs[nat i := v])"
  by (simp add: setitem_def)

lemma getitem_out: "int (length xs) \<le> i \<Longrightarrow> getitem xs i = Inl IndexError"
  by (simp add: getitem_def)

lemma setitem_out: "int (length xs) \<le> i \<Longrightarrow> setitem xs i v = Inl IndexError"
  by (simp add: setitem_def)

lemma ram_getitem: "cpu_ok s \<Longrightarrow> is_byte i \<Longrightarrow> getitem (ram s) i = Inr (ram s ! nat i)"
  by (simp add: getitem_in cpu_ok_def is_byte_def)

lemma ram_byte: "cpu_ok s \<Longrightarrow> is_byte i \<Longrightarrow> is_byte (ram s ! nat i)"
  using ram_getitem[of s i] ram_getitem_byte[of s i] by simp


lemma set_zero_result:
  "set_zero s = (Inr b, s') \<Longrightarrow> zero s' = (reg s' ! 0 = 0) \<and> reg s' = reg s \<and> b"
  by (auto simp: set_zero_def getitem_def REG_A_def Let_def split: sum.splits if_splits)

lemma fetch_reg: "fetch s = (r, s') \<Longrightarrow> reg s' = reg s \<and> zero s' = zero s"
  by (auto simp: fetch_def split: sum.splits)

lemma step_LDI_zero: "step_LDI s = (Inr b, s') \<Longrightarrow> zero s' = (reg s' ! 0 = 0)"
  by (auto simp: step_LDI_def split: prod.splits sum.splits dest: set_zero_result)

lemma step_MOV_zero: "step_MOV s = (Inr b, s') \<Longrightarrow> zero s' = (reg s' ! 0 = 0)"
  by (auto simp: step_MOV_def split: prod.splits sum.splits dest: set_zero_result)

lemma step_IN_zero: "step_IN s = (Inr b, s') \<Longrightarrow> zero s' = (reg s' ! 0 = 0)"
  by (auto simp: step_IN_def split: prod.splits sum.splits list.splits dest: set_zero_result)

lemma step_zero_general:
  assumes "getitem (ram s) (pc s) = Inr opcode"
    and "opcode = OP_LDI \<or> opcode = OP_MOV \<or> opcode = OP_IN"
    and "step s = (Inr b, s')"
  shows "zero s' = (reg s' ! 0 = 0)"
  using assms
  by (auto simp: step_def fetch_opcode_def Let_def OP_defs split: if_splits
           dest: step_LDI_zero step_MOV_zero step_IN_zero)

lemma byte_and: "is_byte x \<Longrightarrow> x AND 0xFF = x"
  by (simp add: and255 is_byte_def)

lemma reg_getitem:
  "cpu_ok s \<Longrightarrow> is_byte r \<Longrightarrow>
   getitem (reg s) r = (if r < 2 then Inr (reg s ! nat r) else Inl IndexError)"
  by (simp add: getitem_def cpu_ok_def is_byte_def)

lemma reg_setitem:
  "cpu_ok s \<Longrightarrow> is_byte r \<Longrightarrow>
   setitem (reg s) r v = (if r < 2 then Inr ((reg s)[nat r := v]) else Inl IndexError)"
  by (simp add: setitem_def cpu_ok_def is_byte_def)

lemma pc2: "((p + 1) mod 256 + 1) mod 256 = (p + 2) mod (256::int)"
  by presburger

lemma is_byte_mod256: "is_byte (x mod 256)"
  by (simp add: is_byte_def)

lemma fetch1:
  "cpu_ok s \<Longrightarrow> fetch s = (Inr (ram s ! nat (pc s)), s\<lparr>pc := (pc s + 1) mod 256\<rparr>)"
  by (simp add: fetch_def ram_getitem cpu_ok_def RAM_SIZE_def)

lemma fetch2:
  assumes "cpu_ok s"
  shows "fetch (s\<lparr>pc := (pc s + 1) mod 256\<rparr>)
         = (Inr (ram s ! nat ((pc s + 1) mod 256)), s\<lparr>pc := (pc s + 2) mod 256\<rparr>)"
  using fetch1[OF cpu_ok_pc[OF assms is_byte_mod256, of "pc s + 1"]]
  by (simp add: pc2)

lemma set_zero_ok:
  "cpu_ok s \<Longrightarrow> set_zero s = (Inr True, s\<lparr>zero := (reg s ! 0 = 0)\<rparr>)"
  by (simp add: set_zero_def REG_A_def getitem_def cpu_ok_def)

lemma step_LDI_ok:
  assumes ok: "cpu_ok s"
  defines "r \<equiv> ram s ! nat (pc s)" and "x \<equiv> ram s ! nat ((pc s + 1) mod 256)"
  shows "step_LDI s =
     (if r < 2
      then (Inr True, s\<lparr>reg := (reg s)[nat r := x], pc := (pc s + 2) mod 256,
                          zero := ((reg s)[nat r := x] ! 0 = 0)\<rparr>)
      else (Inl IndexError, s\<lparr>pc := (pc s + 2) mod 256\<rparr>))"
proof -
  have br: "is_byte r" and bx: "is_byte x"
    using ok by (simp_all add: r_def x_def ram_byte cpu_ok_def is_byte_mod256)
  have ok2: "cpu_ok (s\<lparr>pc := (pc s + 2) mod 256\<rparr>)"
    using ok by (simp add: cpu_ok_pc is_byte_mod256)
  have f: "step_LDI s = (case setitem (reg s) r x of
          Inl e \<Rightarrow> (Inl e, s\<lparr>pc := (pc s + 2) mod 256\<rparr>)
        | Inr rg \<Rightarrow> set_zero (s\<lparr>pc := (pc s + 2) mod 256, reg := rg\<rparr>))"
    by (simp add: step_LDI_def fetch1[OF ok] fetch2[OF ok] byte_and[OF bx]
          r_def[symmetric] x_def[symmetric])
  show ?thesis
  proof (cases "r < 2")
    case True
    have ok3: "cpu_ok (s\<lparr>pc := (pc s + 2) mod 256, reg := (reg s)[nat r := x]\<rparr>)"
      using cpu_ok_reg[OF ok2 bx, of r] reg_setitem[OF ok2 br, of x] True by simp
    show ?thesis
      using True reg_setitem[OF ok br, of x] set_zero_ok[OF ok3]
      by (simp add: f)
  next
    case False
    show ?thesis
      using False reg_setitem[OF ok br, of x]
      by (simp add: f)
  qed
qed


lemma reg_byte: "cpu_ok s \<Longrightarrow> 0 \<le> r \<Longrightarrow> r < 2 \<Longrightarrow> is_byte (reg s ! nat r)"
  by (simp add: cpu_ok_def list_all_length)

lemma ram_setitem:
  "cpu_ok s \<Longrightarrow> is_byte a \<Longrightarrow> setitem (ram s) a v = Inr ((ram s)[nat a := v])"
  by (simp add: setitem_def cpu_ok_def is_byte_def)

lemma step_MOV_ok:
  assumes ok: "cpu_ok s"
  defines "r \<equiv> ram s ! nat (pc s)" and "a \<equiv> ram s ! nat ((pc s + 1) mod 256)"
  shows "step_MOV s =
     (if r < 2
      then (Inr True, s\<lparr>reg := (reg s)[nat r := ram s ! nat a], pc := (pc s + 2) mod 256,
                          zero := ((reg s)[nat r := ram s ! nat a] ! 0 = 0)\<rparr>)
      else (Inl IndexError, s\<lparr>pc := (pc s + 2) mod 256\<rparr>))"
proof -
  have br: "is_byte r" and ba: "is_byte a"
    using ok by (simp_all add: r_def a_def ram_byte cpu_ok_def is_byte_mod256)
  have bv: "is_byte (ram s ! nat a)"
    using ok ba by (rule ram_byte)
  have ok2: "cpu_ok (s\<lparr>pc := (pc s + 2) mod 256\<rparr>)"
    using ok by (simp add: cpu_ok_pc is_byte_mod256)
  have f: "step_MOV s = (case setitem (reg s) r (ram s ! nat a) of
          Inl e \<Rightarrow> (Inl e, s\<lparr>pc := (pc s + 2) mod 256\<rparr>)
        | Inr rg \<Rightarrow> set_zero (s\<lparr>pc := (pc s + 2) mod 256, reg := rg\<rparr>))"
    using ram_getitem[OF ok2 ba]
    by (simp add: step_MOV_def fetch1[OF ok] fetch2[OF ok]
          r_def[symmetric] a_def[symmetric])
  show ?thesis
  proof (cases "r < 2")
    case True
    have ok3: "cpu_ok (s\<lparr>pc := (pc s + 2) mod 256, reg := (reg s)[nat r := ram s ! nat a]\<rparr>)"
      using cpu_ok_reg[OF ok2 bv, of r] reg_setitem[OF ok2 br, of "ram s ! nat a"] True by simp
    show ?thesis
      using True reg_setitem[OF ok br, of "ram s ! nat a"] set_zero_ok[OF ok3]
      by (simp add: f)
  next
    case False
    show ?thesis
      using False reg_setitem[OF ok br, of "ram s ! nat a"]
      by (simp add: f)
  qed
qed

lemma step_STR_ok:
  assumes ok: "cpu_ok s"
  defines "r \<equiv> ram s ! nat (pc s)" and "a \<equiv> ram s ! nat ((pc s + 1) mod 256)"
  shows "step_STR s =
     (if r < 2
      then (Inr True, s\<lparr>ram := (ram s)[nat a := reg s ! nat r], pc := (pc s + 2) mod 256\<rparr>)
      else (Inl IndexError, s\<lparr>pc := (pc s + 2) mod 256\<rparr>))"
proof -
  have br: "is_byte r" and ba: "is_byte a"
    using ok by (simp_all add: r_def a_def ram_byte cpu_ok_def is_byte_mod256)
  have ok2: "cpu_ok (s\<lparr>pc := (pc s + 2) mod 256\<rparr>)"
    using ok by (simp add: cpu_ok_pc is_byte_mod256)
  have f: "step_STR s = (case getitem (reg s) r of
          Inl e \<Rightarrow> (Inl e, s\<lparr>pc := (pc s + 2) mod 256\<rparr>)
        | Inr v \<Rightarrow> (Inr True, s\<lparr>pc := (pc s + 2) mod 256, ram := (ram s)[nat a := v AND 0xFF]\<rparr>))"
    using ram_setitem[OF ok2 ba]
    by (simp add: step_STR_def fetch1[OF ok] fetch2[OF ok]
          r_def[symmetric] a_def[symmetric] split: sum.splits)
  show ?thesis
  proof (cases "r < 2")
    case True
    have "is_byte (reg s ! nat r)"
      using reg_byte[OF ok _ True] br by (simp add: is_byte_def)
    then show ?thesis
      using True reg_getitem[OF ok br]
      by (simp add: f byte_and)
  next
    case False
    show ?thesis
      using False reg_getitem[OF ok br]
      by (simp add: f)
  qed
qed

lemma step_arith_ok:
  fixes f :: "int \<Rightarrow> int \<Rightarrow> int" and s :: CPU
  assumes ok: "cpu_ok s"
  defines "r1 \<equiv> ram s ! nat (pc s)" and "r2 \<equiv> ram s ! nat ((pc s + 1) mod 256)"
  defines "v \<equiv> f (reg s ! nat r1) (reg s ! nat r2) AND 0xFF"
  shows "step_arith f s =
     (if r1 < 2 \<and> r2 < 2
      then (Inr True, s\<lparr>reg := (reg s)[0 := v], pc := (pc s + 2) mod 256, zero := (v = 0)\<rparr>)
      else (Inl IndexError, s\<lparr>pc := (pc s + 2) mod 256\<rparr>))"
proof -
  have b1: "is_byte r1" and b2: "is_byte r2"
    using ok by (simp_all add: r1_def r2_def ram_byte cpu_ok_def is_byte_mod256)
  have bv: "is_byte v"
    by (simp add: v_def is_byte_and)
  have ok2: "cpu_ok (s\<lparr>pc := (pc s + 2) mod 256\<rparr>)"
    using ok by (simp add: cpu_ok_pc is_byte_mod256)
  have st: "setitem (reg s) REG_A v = Inr ((reg s)[0 := v])"
    using ok by (simp add: setitem_def REG_A_def cpu_ok_def)
  have ok3: "cpu_ok (s\<lparr>pc := (pc s + 2) mod 256, reg := (reg s)[0 := v]\<rparr>)"
    using cpu_ok_reg[OF ok2 bv, of REG_A] st by simp
  have len: "length (reg s) = 2"
    using ok by (simp add: cpu_ok_def)
  have f: "step_arith f s = (case getitem (reg s) r1 of
          Inl e \<Rightarrow> (Inl e, s\<lparr>pc := (pc s + 2) mod 256\<rparr>)
        | Inr v1 \<Rightarrow> (case getitem (reg s) r2 of
             Inl e \<Rightarrow> (Inl e, s\<lparr>pc := (pc s + 2) mod 256\<rparr>)
           | Inr v2 \<Rightarrow> (case setitem (reg s) REG_A (f v1 v2 AND 0xFF) of
                Inl e \<Rightarrow> (Inl e, s\<lparr>pc := (pc s + 2) mod 256\<rparr>)
              | Inr rg \<Rightarrow> set_zero (s\<lparr>pc := (pc s + 2) mod 256, reg := rg\<rparr>))))"
    by (simp add: step_arith_def fetch1[OF ok] fetch2[OF ok]
          r1_def[symmetric] r2_def[symmetric] split: sum.splits)
  show ?thesis
  proof (cases "r1 < 2 \<and> r2 < 2")
    case True
    show ?thesis
      using True reg_getitem[OF ok b1] reg_getitem[OF ok b2] st set_zero_ok[OF ok3] len
      by (simp add: f v_def[symmetric])
  next
    case False
    show ?thesis
      using False reg_getitem[OF ok b1] reg_getitem[OF ok b2]
      by (auto simp add: f)
  qed
qed

lemma step_JMP_ok:
  assumes ok: "cpu_ok s"
  shows "step_JMP s = (Inr True, s\<lparr>pc := ram s ! nat (pc s)\<rparr>)"
proof -
  have b: "is_byte (ram s ! nat (pc s))"
    using ok by (simp add: ram_byte cpu_ok_def)
  then have "ram s ! nat (pc s) mod 256 = ram s ! nat (pc s)"
    by (simp add: is_byte_def)
  then show ?thesis
    using ram_getitem[OF ok, of "pc s"] ok
    by (simp add: step_JMP_def RAM_SIZE_def cpu_ok_def)
qed

lemma step_Jcond_ok:
  assumes ok: "cpu_ok s"
  shows "step_Jcond want s =
     (Inr True, s\<lparr>pc := (if zero s = want then ram s ! nat (pc s) else (pc s + 1) mod 256)\<rparr>)"
proof -
  have b: "is_byte (ram s ! nat (pc s))"
    using ok by (simp add: ram_byte cpu_ok_def)
  then have "ram s ! nat (pc s) mod 256 = ram s ! nat (pc s)"
    by (simp add: is_byte_def)
  then show ?thesis
    by (simp add: step_Jcond_def fetch1[OF ok] RAM_SIZE_def)
qed

lemma step_OUT_ok:
  assumes ok: "cpu_ok s"
  defines "r \<equiv> ram s ! nat (pc s)"
  shows "step_OUT s =
     (if r < 2
      then (Inr True, s\<lparr>pc := (pc s + 1) mod 256,
                          stdout := stdout s @ [char_of (reg s ! nat r)]\<rparr>)
      else (Inl IndexError, s\<lparr>pc := (pc s + 1) mod 256\<rparr>))"
proof -
  have br: "is_byte r"
    using ok by (simp add: r_def ram_byte cpu_ok_def)
  have ok1: "cpu_ok (s\<lparr>pc := (pc s + 1) mod 256\<rparr>)"
    using ok by (simp add: cpu_ok_pc is_byte_mod256)
  show ?thesis
  proof (cases "r < 2")
    case True
    have "is_byte (reg s ! nat r)"
      using reg_byte[OF ok _ True] br by (simp add: is_byte_def)
    then show ?thesis
      using True reg_getitem[OF ok1 br]
      by (simp add: step_OUT_def fetch1[OF ok] r_def[symmetric] byte_and)
  next
    case False
    then show ?thesis
      using reg_getitem[OF ok1 br]
      by (simp add: step_OUT_def fetch1[OF ok] r_def[symmetric])
  qed
qed

lemma step_IN_ok:
  assumes ok: "cpu_ok s"
  defines "r \<equiv> ram s ! nat (pc s)"
  defines "v \<equiv> (case stdin s of [] \<Rightarrow> 0 | c # cs \<Rightarrow> c) AND 0xFF"
  shows "step_IN s =
     (if r < 2
      then (Inr True, s\<lparr>reg := (reg s)[nat r := v], pc := (pc s + 1) mod 256,
                          zero := ((reg s)[nat r := v] ! 0 = 0), stdin := tl (stdin s)\<rparr>)
      else (Inl IndexError, s\<lparr>pc := (pc s + 1) mod 256, stdin := tl (stdin s)\<rparr>))"
proof -
  have br: "is_byte r"
    using ok by (simp add: r_def ram_byte cpu_ok_def)
  have bv: "is_byte v"
    by (simp add: v_def is_byte_and)
  have ok1: "cpu_ok (s\<lparr>pc := (pc s + 1) mod 256, stdin := tl (stdin s)\<rparr>)"
    using ok by (simp add: cpu_ok_def is_byte_mod256)
  have f: "step_IN s = (case setitem (reg s) r v of
          Inl e \<Rightarrow> (Inl e, s\<lparr>pc := (pc s + 1) mod 256, stdin := tl (stdin s)\<rparr>)
        | Inr rg \<Rightarrow> set_zero (s\<lparr>pc := (pc s + 1) mod 256, stdin := tl (stdin s), reg := rg\<rparr>))"
  proof -
    have e: "(case stdin s of
                [] \<Rightarrow> (0, s\<lparr>pc := (pc s + 1) mod 256\<rparr>)
              | c # cs \<Rightarrow> (c, s\<lparr>pc := (pc s + 1) mod 256, stdin := cs\<rparr>))
             = (case stdin s of [] \<Rightarrow> 0 | c # cs \<Rightarrow> c,
                s\<lparr>pc := (pc s + 1) mod 256, stdin := tl (stdin s)\<rparr>)"
    proof (cases "stdin s")
      case Nil
      have "s\<lparr>stdin := tl (stdin s)\<rparr> = s\<lparr>stdin := stdin s\<rparr>"
        using Nil by simp
      then have "s\<lparr>stdin := tl (stdin s)\<rparr> = s"
        by simp
      then have "s\<lparr>pc := (pc s + 1) mod 256, stdin := tl (stdin s)\<rparr>
                 = s\<lparr>pc := (pc s + 1) mod 256\<rparr>"
        by (metis CPU.update_convs(3) CPU.surjective CPU.update_convs(7))
      then show ?thesis using Nil by simp
    next
      case (Cons c cs)
      then show ?thesis by simp
    qed
    show ?thesis
      by (simp add: step_IN_def fetch1[OF ok] r_def[symmetric] v_def e)
  qed
  show ?thesis
  proof (cases "r < 2")
    case True
    have ok3: "cpu_ok (s\<lparr>pc := (pc s + 1) mod 256, stdin := tl (stdin s),
                         reg := (reg s)[nat r := v]\<rparr>)"
      using cpu_ok_reg[OF ok1 bv, of r] reg_setitem[OF ok1 br, of v] True by simp
    show ?thesis
      using True reg_setitem[OF ok br, of v] set_zero_ok[OF ok3]
      by (simp add: f)
  next
    case False
    show ?thesis
      using False reg_setitem[OF ok br, of v]
      by (simp add: f)
  qed
qed


lemma fetch_opcode_ok:
  assumes ok: "cpu_ok s"
  obtains s1 where "fetch_opcode s = (Inr (ram s ! nat (pc s)), s1)"
    and "cpu_ok s1" and "ram s1 = ram s" and "reg s1 = reg s"
    and "pc s1 = (pc s + 1) mod 256" and "zero s1 = zero s" and "stdin s1 = stdin s"
    and "\<not> trace s \<Longrightarrow> stdout s1 = stdout s"
proof -
  obtain r s1 where f: "fetch_opcode s = (r, s1)"
    by (cases "fetch_opcode s")
  have g: "getitem (ram s) (pc s) = Inr (ram s ! nat (pc s))"
    using ok by (simp add: ram_getitem cpu_ok_def)
  have "r = Inr (ram s ! nat (pc s))" and "ram s1 = ram s" and "reg s1 = reg s"
    and "pc s1 = (pc s + 1) mod 256" and "zero s1 = zero s" and "stdin s1 = stdin s"
    and "\<not> trace s \<Longrightarrow> stdout s1 = stdout s"
    using f by (auto simp: fetch_opcode_def g Let_def RAM_SIZE_def split: if_splits)
  with fetch_opcode_inv[OF ok f] f that show thesis
    by blast
qed

text \<open>
  Claim C7. In a state of bytes whose program counter is at a \<open>STR\<close> opcode with register
  operand \<open>r\<close>, 0 or 1, and address operand \<open>a\<close>, the step returns \<open>True\<close>, stores
  register \<open>r\<close> in cell \<open>a\<close> and changes no other cell, advances the program counter by
  3 modulo 256, and leaves the registers and the zero flag as they were.
\<close>

theorem STR_frame:
  assumes ok: "cpu_ok s"
    and op: "ram s ! nat (pc s) = OP_STR"
    and r: "r = ram s ! nat ((pc s + 1) mod 256)"
    and a: "a = ram s ! nat ((pc s + 2) mod 256)"
    and r01: "r = 0 \<or> r = 1"
  shows "fst (step s) = Inr True
         \<and> ram (snd (step s)) = (ram s)[nat a := reg s ! nat r]
         \<and> pc (snd (step s)) = (pc s + 3) mod 256
         \<and> reg (snd (step s)) = reg s
         \<and> zero (snd (step s)) = zero s"
proof -
  obtain s1 where f: "fetch_opcode s = (Inr (ram s ! nat (pc s)), s1)"
    and ok1: "cpu_ok s1" and m: "ram s1 = ram s" and g: "reg s1 = reg s"
    and p: "pc s1 = (pc s + 1) mod 256" and z: "zero s1 = zero s"
    using fetch_opcode_ok[OF ok] by blast
  have p2: "(pc s1 + 1) mod 256 = (pc s + 2) mod 256"
    and p3: "(pc s1 + 2) mod 256 = (pc s + 3) mod 256"
    unfolding p by presburger+
  have st: "step s = step_STR s1"
    by (simp add: step_def f op OP_defs)
  note k = step_STR_ok[OF ok1, unfolded p2 p3, unfolded p m g]
  show ?thesis
    using r01 by (auto simp: st k m g z r a)
qed


text \<open>
  Claim C10. In a state of bytes the step raises \<open>IndexError\<close> exactly when the opcode
  takes register operands and one of them is 2 or more; otherwise it returns, \<open>True\<close>
  for the eleven opcodes that continue and \<open>False\<close> for \<open>HLT\<close> and for an unknown
  opcode. When it raises with tracing off, nothing has been written to the output: the
  fault is neither a halt nor a reported error.
\<close>

theorem register_operand_fault:
  assumes ok: "cpu_ok s"
  shows "fst (step s) =
           (if reg_operand_fault s then Inl IndexError
            else Inr (ram s ! nat (pc s) \<in>
                   {OP_NOP, OP_LDI, OP_MOV, OP_STR, OP_ADD, OP_SUB, OP_JMP, OP_JZ, OP_JNZ,
                    OP_OUT, OP_IN}))
         \<and> (reg_operand_fault s \<and> \<not> trace s \<longrightarrow> stdout (snd (step s)) = stdout s)"
proof -
  obtain s1 where f: "fetch_opcode s = (Inr (ram s ! nat (pc s)), s1)"
    and ok1: "cpu_ok s1" and m: "ram s1 = ram s" and g: "reg s1 = reg s"
    and p: "pc s1 = (pc s + 1) mod 256" and z: "zero s1 = zero s"
    and o: "\<not> trace s \<Longrightarrow> stdout s1 = stdout s"
    using fetch_opcode_ok[OF ok] by blast
  have p2: "(pc s1 + 1) mod 256 = (pc s + 2) mod 256"
    and p3: "(pc s1 + 2) mod 256 = (pc s + 3) mod 256"
    unfolding p by presburger+
  note k = step_LDI_ok[OF ok1, unfolded p2 p3, unfolded p m g]
    step_MOV_ok[OF ok1, unfolded p2 p3, unfolded p m g]
    step_STR_ok[OF ok1, unfolded p2 p3, unfolded p m g]
    step_arith_ok[OF ok1, unfolded p2 p3, unfolded p m g]
    step_JMP_ok[OF ok1, unfolded p m g]
    step_Jcond_ok[OF ok1, unfolded p2, unfolded p m g]
    step_OUT_ok[OF ok1, unfolded p2, unfolded p m g]
    step_IN_ok[OF ok1, unfolded p2, unfolded p m g]
  define opcode where "opcode = ram s ! nat (pc s)"
  consider "opcode = OP_NOP" | "opcode = OP_LDI" | "opcode = OP_MOV" | "opcode = OP_STR"
    | "opcode = OP_ADD" | "opcode = OP_SUB" | "opcode = OP_JMP" | "opcode = OP_JZ"
    | "opcode = OP_JNZ" | "opcode = OP_OUT" | "opcode = OP_IN" | "opcode = OP_HLT"
    | "opcode \<notin> {OP_NOP, OP_LDI, OP_MOV, OP_STR, OP_ADD, OP_SUB, OP_JMP, OP_JZ, OP_JNZ,
                    OP_OUT, OP_IN, OP_HLT}"
    by blast
  then show ?thesis
  proof cases
    case 1
    then show ?thesis
      using f by (simp add: step_def opcode_def reg_operand_fault_def OP_defs)
  next
    case 2
    then show ?thesis
      using f o by (simp add: step_def opcode_def reg_operand_fault_def OP_defs k not_less)
  next
    case 3
    then show ?thesis
      using f o by (simp add: step_def opcode_def reg_operand_fault_def OP_defs k not_less)
  next
    case 4
    then show ?thesis
      using f o by (simp add: step_def opcode_def reg_operand_fault_def OP_defs k not_less)
  next
    case 5
    then show ?thesis
      using f o by (auto simp add: step_def opcode_def reg_operand_fault_def OP_defs k not_less)
  next
    case 6
    then show ?thesis
      using f o by (auto simp add: step_def opcode_def reg_operand_fault_def OP_defs k not_less)
  next
    case 7
    then show ?thesis
      using f by (simp add: step_def opcode_def reg_operand_fault_def OP_defs k)
  next
    case 8
    then show ?thesis
      using f by (simp add: step_def opcode_def reg_operand_fault_def OP_defs k)
  next
    case 9
    then show ?thesis
      using f by (simp add: step_def opcode_def reg_operand_fault_def OP_defs k)
  next
    case 10
    then show ?thesis
      using f o by (simp add: step_def opcode_def reg_operand_fault_def OP_defs k not_less)
  next
    case 11
    then show ?thesis
      using f o by (simp add: step_def opcode_def reg_operand_fault_def OP_defs k not_less)
  next
    case 12
    then show ?thesis
      using f by (simp add: step_def opcode_def reg_operand_fault_def OP_defs)
  next
    case 13
    then show ?thesis
      using f by (simp add: step_def opcode_def reg_operand_fault_def OP_defs)
  qed
qed


lemma load_bin_loop_ok:
  "length r = 256 \<Longrightarrow> fst (load_bin_loop data addr i r) = Inr ()"
proof (induction data arbitrary: i r)
  case Nil
  then show ?case by simp
next
  case (Cons b bs)
  have "setitem r ((addr + i) mod 256) (b AND 0xFF)
        = Inr (r[nat ((addr + i) mod 256) := b AND 0xFF])"
    using Cons.prems by (simp add: setitem_def)
  then show ?case
    using Cons.IH[of "r[nat ((addr + i) mod 256) := b AND 0xFF]" "i + 1"] Cons.prems
    by (simp add: RAM_SIZE_def)
qed

text \<open>
  Claim C6. From a state whose program counter, two registers and 256 memory cells are
  bytes, \<open>load_bin\<close> with any data and any base address returns without an exception,
  and after it and after every \<open>step\<close> the program counter, the registers and the
  memory cells are bytes again, whatever the step returns or raises.
\<close>

theorem bytes_stay_bytes:
  assumes "cpu_ok s"
  shows "fst (load_bin s data addr) = Inr ()
         \<and> cpu_ok (snd (load_bin s data addr))
         \<and> cpu_ok (snd (step s))"
proof -
  have "fst (load_bin s data addr) = Inr ()"
    using load_bin_loop_ok[of "ram s" data addr 0] assms
    by (simp add: load_bin_def cpu_ok_def case_prod_beta)
  then show ?thesis
    using load_bin_inv[OF assms] step_inv[OF assms] by simp
qed

lemma cpu_ok_init: "cpu_ok (CPU_init inp)"
  by (simp add: cpu_ok_def CPU_init_def is_byte_def list_all_iff)

text \<open>
  The state after \<open>CPU.__init__\<close> is such a state: loading the values 511, -1 and 16 at
  address 255 wraps around the end of memory and reduces each value to a byte.
\<close>

theorem bytes_stay_bytes_witness:
  "cpu_ok (CPU_init [])
   \<and> fst (load_bin (CPU_init []) [0x1FF, - 1, 0x10] 255) = Inr ()
   \<and> cpu_ok (snd (load_bin (CPU_init []) [0x1FF, - 1, 0x10] 255))
   \<and> cpu_ok (snd (step (CPU_init [])))"
  using bytes_stay_bytes[OF cpu_ok_init, of "[]" "[0x1FF, - 1, 0x10]" 255] cpu_ok_init[of "[]"]
  by simp

text \<open>
  In any state, of bytes or not: when the opcode is \<open>LDI\<close>, \<open>MOV\<close> or \<open>IN\<close> and the step
  returns, the zero flag is the test \<open>self.reg[REG_A] == 0\<close> on the registers after the
  step.
\<close>

lemma zero_flag_when_step_returns:
  assumes g: "getitem (ram s) (pc s) = Inr opcode"
    and op: "opcode = OP_LDI \<or> opcode = OP_MOV \<or> opcode = OP_IN"
    and st: "step s = (Inr b, s')"
  shows "getitem (reg s') REG_A = Inr (reg s' ! 0)
         \<and> zero s' = (reg s' ! 0 = 0)
         \<and> (cpu_ok s \<and> ram s ! nat ((pc s + 1) mod 256) = REG_B
              \<longrightarrow> reg s' ! 0 = reg s ! 0 \<and> zero s' = (reg s ! 0 = 0))"
proof -
  obtain r s1 where f: "fetch_opcode s = (r, s1)"
    by (cases "fetch_opcode s")
  have r: "r = Inr opcode"
    using f g by (auto simp: fetch_opcode_def Let_def)
  have sx: "step_LDI s1 = (Inr b, s') \<or> step_MOV s1 = (Inr b, s') \<or> step_IN s1 = (Inr b, s')"
    using st op by (auto simp: step_def f r OP_defs)
  have tail: "\<And>t. set_zero t = (Inr b, s') \<Longrightarrow>
                getitem (reg s') REG_A = Inr (reg s' ! 0) \<and> zero s' = (reg s' ! 0 = 0)"
    by (auto simp: set_zero_def getitem_def REG_A_def Let_def split: sum.splits if_splits)
  have gen: "getitem (reg s') REG_A = Inr (reg s' ! 0) \<and> zero s' = (reg s' ! 0 = 0)"
    using sx
  proof (elim disjE)
    assume "step_LDI s1 = (Inr b, s')"
    then show ?thesis
      by (auto simp: step_LDI_def split: prod.splits sum.splits dest: tail)
  next
    assume "step_MOV s1 = (Inr b, s')"
    then show ?thesis
      by (auto simp: step_MOV_def split: prod.splits sum.splits dest: tail)
  next
    assume "step_IN s1 = (Inr b, s')"
    then show ?thesis
      by (auto simp: step_IN_def split: prod.splits sum.splits list.splits dest: tail)
  qed
  have quirk: "reg s' ! 0 = reg s ! 0"
    if ok: "cpu_ok s" and rb: "ram s ! nat ((pc s + 1) mod 256) = REG_B"
  proof -
    obtain s2 where f2: "fetch_opcode s = (Inr (ram s ! nat (pc s)), s2)"
      and ok1: "cpu_ok s2" and m: "ram s2 = ram s" and rg: "reg s2 = reg s"
      and p: "pc s2 = (pc s + 1) mod 256"
      using fetch_opcode_ok[OF ok] by blast
    have e: "s2 = s1"
      using f f2 by simp
    have p2: "(pc s2 + 1) mod 256 = (pc s + 2) mod 256"
      unfolding p by presburger
    note k = step_LDI_ok[OF ok1, unfolded p2, unfolded p m rg rb]
      step_MOV_ok[OF ok1, unfolded p2, unfolded p m rg rb]
      step_IN_ok[OF ok1, unfolded p2, unfolded p m rg rb]
    show ?thesis
      using sx by (auto simp: e[symmetric] k REG_B_def)
  qed
  show ?thesis
    using gen quirk by auto
qed


lemmas step_defs = step_def fetch_opcode_def fetch_def set_zero_def step_LDI_def step_MOV_def
  step_STR_def step_arith_def step_JMP_def step_Jcond_def step_OUT_def step_IN_def
  getitem_def setitem_def RAM_SIZE_def REG_A_def REG_B_def OP_defs CPU_init_def

lemmas load_defs = load_bin_def setitem_def RAM_SIZE_def CPU_init_def

lemma cpu_ok_regs: "cpu_ok s \<Longrightarrow> is_byte a \<Longrightarrow> is_byte b \<Longrightarrow> cpu_ok (s\<lparr>reg := [a, b]\<rparr>)"
  by (simp add: cpu_ok_def)

text \<open>
  Claim C4. An opcode byte that is none of the twelve makes the step return \<open>False\<close> and
  print the message with \<open>self.pc - 1\<close> as the address, computed after the program
  counter has wrapped: for the byte 0x01 fetched at address 255 the message names the
  address -1.
\<close>

theorem unknown_opcode_at_255:
  "step ((CPU_init [])\<lparr>ram := (replicate 256 0)[255 := 1], pc := 255\<rparr>)
   = (Inr False,
      (CPU_init [])\<lparr>ram := (replicate 256 0)[255 := 1], pc := 0,
                     stdout := ''Unknown opcode 01 at -1'' @ [CHR 0x0A]\<rparr>)"
  by (simp add: step_defs fmt_02X_def hexdigits.simps)

text \<open>\<open>STR B, 0x80\<close> at address 0, with 7 in A and 9 in B.\<close>

theorem STR_frame_witness:
  "cpu_ok ((snd (load_bin (CPU_init []) [0x12, 1, 0x80] 0))\<lparr>reg := [7, 9]\<rparr>)
   \<and> fst (step ((snd (load_bin (CPU_init []) [0x12, 1, 0x80] 0))\<lparr>reg := [7, 9]\<rparr>)) = Inr True
   \<and> ram (snd (step ((snd (load_bin (CPU_init []) [0x12, 1, 0x80] 0))\<lparr>reg := [7, 9]\<rparr>)))
       = (replicate 256 0)[0 := 0x12, 1 := 1, 2 := 0x80, 128 := 9]
   \<and> pc (snd (step ((snd (load_bin (CPU_init []) [0x12, 1, 0x80] 0))\<lparr>reg := [7, 9]\<rparr>))) = 3
   \<and> reg (snd (step ((snd (load_bin (CPU_init []) [0x12, 1, 0x80] 0))\<lparr>reg := [7, 9]\<rparr>)))
       = [7, 9]"
proof -
  define s where "s = (snd (load_bin (CPU_init []) [0x12, 1, 0x80] 0))\<lparr>reg := [7, 9]\<rparr>"
  have ok: "cpu_ok s"
    unfolding s_def
    by (rule cpu_ok_regs[OF load_bin_inv[OF cpu_ok_init]]) (simp_all add: is_byte_def)
  have m: "ram s = (replicate 256 0)[0 := 0x12, 1 := 1, 2 := 0x80]"
    and p: "pc s = 0" and r: "reg s = [7, 9]"
    by (simp_all add: s_def load_defs)
  have op: "ram s ! nat (pc s) = OP_STR"
    by (simp add: m p OP_defs)
  have r1: "(1::int) = ram s ! nat ((pc s + 1) mod 256)"
    by (simp add: m p)
  have a: "(128::int) = ram s ! nat ((pc s + 2) mod 256)"
    by (simp add: m p)
  show ?thesis
    using STR_frame[OF ok op r1 a] ok
    by (simp add: s_def[symmetric] m p r)
qed

text \<open>\<open>LDI\<close> with the register operand 2.\<close>

theorem register_operand_fault_witness:
  "cpu_ok (snd (load_bin (CPU_init []) [0x10, 2, 5] 0))
   \<and> reg_operand_fault (snd (load_bin (CPU_init []) [0x10, 2, 5] 0))
   \<and> fst (step (snd (load_bin (CPU_init []) [0x10, 2, 5] 0))) = Inl IndexError
   \<and> stdout (snd (step (snd (load_bin (CPU_init []) [0x10, 2, 5] 0)))) = []"
proof -
  define s where "s = snd (load_bin (CPU_init []) [0x10, 2, 5] 0)"
  have ok: "cpu_ok s"
    unfolding s_def by (rule load_bin_inv[OF cpu_ok_init])
  have m: "ram s = (replicate 256 0)[0 := 0x10, 1 := 2, 2 := 5]"
    and p: "pc s = 0" and t: "\<not> trace s" and o: "stdout s = []"
    by (simp_all add: s_def load_defs)
  have f: "reg_operand_fault s"
    by (simp add: reg_operand_fault_def m p OP_defs)
  show ?thesis
    using register_operand_fault[OF ok] ok f t o
    by (simp add: s_def[symmetric])
qed

text \<open>
  Claim C5. In a state of bytes whose program counter is at an \<open>LDI\<close>, \<open>MOV\<close> or \<open>IN\<close>
  opcode with register operand 0 or 1, the step returns \<open>True\<close>, writes the immediate,
  the memory cell or the byte read into that register, and leaves the zero flag equal to
  the test \<open>self.reg[REG_A] == 0\<close> on the registers after the step. When the operand
  selects B, register A is the one before the step and the flag is computed from it.
\<close>

theorem zero_flag_follows_A:
  assumes ok: "cpu_ok s"
    and op: "ram s ! nat (pc s) = OP_LDI \<or> ram s ! nat (pc s) = OP_MOV
             \<or> ram s ! nat (pc s) = OP_IN"
    and r: "ram s ! nat ((pc s + 1) mod 256) = REG_A \<or> ram s ! nat ((pc s + 1) mod 256) = REG_B"
  shows "fst (step s) = Inr True
         \<and> reg (snd (step s))
             = (reg s)[nat (ram s ! nat ((pc s + 1) mod 256)) :=
                 (if ram s ! nat (pc s) = OP_LDI then ram s ! nat ((pc s + 2) mod 256)
                  else if ram s ! nat (pc s) = OP_MOV
                  then ram s ! nat (ram s ! nat ((pc s + 2) mod 256))
                  else (case stdin s of [] \<Rightarrow> 0 | c # cs \<Rightarrow> c) AND 0xFF)]
         \<and> getitem (reg (snd (step s))) REG_A = Inr (reg (snd (step s)) ! 0)
         \<and> zero (snd (step s)) = (reg (snd (step s)) ! 0 = 0)
         \<and> (ram s ! nat ((pc s + 1) mod 256) = REG_B
              \<longrightarrow> reg (snd (step s)) ! 0 = reg s ! 0 \<and> zero (snd (step s)) = (reg s ! 0 = 0))"
proof -
  obtain s1 where f: "fetch_opcode s = (Inr (ram s ! nat (pc s)), s1)"
    and ok1: "cpu_ok s1" and m: "ram s1 = ram s" and g: "reg s1 = reg s"
    and p: "pc s1 = (pc s + 1) mod 256" and i: "stdin s1 = stdin s"
    using fetch_opcode_ok[OF ok] by blast
  have p2: "(pc s1 + 1) mod 256 = (pc s + 2) mod 256"
    unfolding p by presburger
  have len: "length (reg s) = 2"
    using ok by (simp add: cpu_ok_def)
  define rb where "rb = ram s ! nat ((pc s + 1) mod 256)"
  have rb: "rb = 0 \<or> rb = 1"
    using r by (simp add: rb_def REG_A_def REG_B_def)
  note k = step_LDI_ok[OF ok1, unfolded p2, unfolded p m g, folded rb_def]
    step_MOV_ok[OF ok1, unfolded p2, unfolded p m g, folded rb_def]
    step_IN_ok[OF ok1, unfolded p m g i, folded rb_def]
  have g0: "getitem xs REG_A = Inr (xs ! 0)" if "length xs = 2" for xs :: "int list"
    using that by (simp add: getitem_def REG_A_def)
  from op show ?thesis
  proof (elim disjE)
    assume o: "ram s ! nat (pc s) = OP_LDI"
    then have st: "step s = step_LDI s1"
      by (simp add: step_def f OP_defs)
    show ?thesis
      unfolding rb_def[symmetric] using rb len
      by (auto simp: st k o g0 REG_B_def)
  next
    assume o: "ram s ! nat (pc s) = OP_MOV"
    then have st: "step s = step_MOV s1"
      by (simp add: step_def f OP_defs)
    show ?thesis
      unfolding rb_def[symmetric] using rb len
      by (auto simp: st k o g0 REG_B_def OP_defs)
  next
    assume o: "ram s ! nat (pc s) = OP_IN"
    then have st: "step s = step_IN s1"
      by (simp add: step_def f OP_defs)
    show ?thesis
      unfolding rb_def[symmetric] using rb len
      by (auto simp: st k o g0 REG_B_def OP_defs)
  qed
qed

text \<open>
  \<open>LDI B, 5\<close> with 0 in A: the flag is set although 5 was loaded. \<open>MOV A, 3\<close> with 9 in
  cell 3: the flag is cleared. \<open>IN B\<close> reading the character \<open>A\<close> with 0 in A: the flag is
  set although 65 was read.
\<close>

theorem zero_flag_follows_A_witness:
  "cpu_ok (snd (load_bin (CPU_init []) [0x10, 1, 5] 0))
   \<and> fst (step (snd (load_bin (CPU_init []) [0x10, 1, 5] 0))) = Inr True
   \<and> reg (snd (step (snd (load_bin (CPU_init []) [0x10, 1, 5] 0)))) = [0, 5]
   \<and> zero (snd (step (snd (load_bin (CPU_init []) [0x10, 1, 5] 0)))) = True
   \<and> cpu_ok (snd (load_bin (CPU_init []) [0x11, 0, 3, 9] 0))
   \<and> fst (step (snd (load_bin (CPU_init []) [0x11, 0, 3, 9] 0))) = Inr True
   \<and> reg (snd (step (snd (load_bin (CPU_init []) [0x11, 0, 3, 9] 0)))) = [9, 0]
   \<and> zero (snd (step (snd (load_bin (CPU_init []) [0x11, 0, 3, 9] 0)))) = False
   \<and> cpu_ok (snd (load_bin (CPU_init [0x41]) [0x41, 1] 0))
   \<and> fst (step (snd (load_bin (CPU_init [0x41]) [0x41, 1] 0))) = Inr True
   \<and> reg (snd (step (snd (load_bin (CPU_init [0x41]) [0x41, 1] 0)))) = [0, 0x41]
   \<and> zero (snd (step (snd (load_bin (CPU_init [0x41]) [0x41, 1] 0)))) = True"
proof -
  define sL where "sL = snd (load_bin (CPU_init []) [0x10, 1, 5] 0)"
  define sM where "sM = snd (load_bin (CPU_init []) [0x11, 0, 3, 9] 0)"
  define sI where "sI = snd (load_bin (CPU_init [0x41]) [0x41, 1] 0)"
  have okL: "cpu_ok sL" and okM: "cpu_ok sM" and okI: "cpu_ok sI"
    unfolding sL_def sM_def sI_def by (rule load_bin_inv[OF cpu_ok_init])+
  have L: "ram sL = (replicate 256 0)[0 := 0x10, 1 := 1, 2 := 5]" "pc sL = 0"
    "reg sL = [0, 0]"
    by (simp_all add: sL_def load_defs)
  have M: "ram sM = (replicate 256 0)[0 := 0x11, 1 := 0, 2 := 3, 3 := 9]" "pc sM = 0"
    "reg sM = [0, 0]"
    by (simp_all add: sM_def load_defs)
  have I: "ram sI = (replicate 256 0)[0 := 0x41, 1 := 1]" "pc sI = 0"
    "reg sI = [0, 0]" "stdin sI = [0x41]"
    by (simp_all add: sI_def load_defs)
  have opL: "ram sL ! nat (pc sL) = OP_LDI \<or> ram sL ! nat (pc sL) = OP_MOV
             \<or> ram sL ! nat (pc sL) = OP_IN"
    and rL: "ram sL ! nat ((pc sL + 1) mod 256) = REG_A
             \<or> ram sL ! nat ((pc sL + 1) mod 256) = REG_B"
    by (simp_all add: L OP_defs REG_A_def REG_B_def)
  have opM: "ram sM ! nat (pc sM) = OP_LDI \<or> ram sM ! nat (pc sM) = OP_MOV
             \<or> ram sM ! nat (pc sM) = OP_IN"
    and rM: "ram sM ! nat ((pc sM + 1) mod 256) = REG_A
             \<or> ram sM ! nat ((pc sM + 1) mod 256) = REG_B"
    by (simp_all add: M OP_defs REG_A_def REG_B_def)
  have opI: "ram sI ! nat (pc sI) = OP_LDI \<or> ram sI ! nat (pc sI) = OP_MOV
             \<or> ram sI ! nat (pc sI) = OP_IN"
    and rI: "ram sI ! nat ((pc sI + 1) mod 256) = REG_A
             \<or> ram sI ! nat ((pc sI + 1) mod 256) = REG_B"
    by (simp_all add: I OP_defs REG_A_def REG_B_def)
  have tL: "fst (step sL) = Inr True \<and> reg (snd (step sL)) = [0, 5]
            \<and> zero (snd (step sL)) = True"
    using zero_flag_follows_A[OF okL opL rL] by (simp add: L OP_defs)
  have tM: "fst (step sM) = Inr True \<and> reg (snd (step sM)) = [9, 0]
            \<and> zero (snd (step sM)) = False"
    using zero_flag_follows_A[OF okM opM rM] by (simp add: M OP_defs)
  have tI: "fst (step sI) = Inr True \<and> reg (snd (step sI)) = [0, 0x41]
            \<and> zero (snd (step sI)) = True"
    using zero_flag_follows_A[OF okI opI rI] by (simp add: I OP_defs)
  show ?thesis
    using okL okM okI tL tM tI
    unfolding sL_def sM_def sI_def by (intro conjI) simp_all
qed

section \<open>Properties of the assembler\<close>

text \<open>
  Claim C3. The three lines \<open>LDI A,65\<close>, \<open>OUT A\<close>, \<open>HLT\<close> assemble to the bytes
  10 00 41 40 00 FF. Loaded at address 0 into a fresh machine and run from 0, they write
  the one character \<open>A\<close> and the run halts, with 65 in register A, the zero flag false and
  the program counter at 6.
\<close>

theorem ldi_out_hlt_scenario:
  "assemble [''LDI A,65'', ''OUT A'', ''HLT''] = Inr [0x10, 0x00, 0x41, 0x40, 0x00, 0xFF]
   \<and> run (snd (load_bin (CPU_init inp) [0x10, 0x00, 0x41, 0x40, 0x00, 0xFF] 0)) 0 False
       = Some (Inr (),
           \<lparr>ram = (replicate 256 0)[0 := 0x10, 1 := 0x00, 2 := 0x41, 3 := 0x40, 4 := 0x00,
                                      5 := 0xFF],
            reg = [65, 0], pc = 6, zero = False, running = False, trace = False,
            stdin = inp, stdout = ''A''\<rparr>)"
proof -
  have "assemble [''LDI A,65'', ''OUT A'', ''HLT''] = Inr [0x10, 0x00, 0x41, 0x40, 0x00, 0xFF]"
    by code_simp
  moreover have "run (snd (load_bin (CPU_init inp) [0x10, 0x00, 0x41, 0x40, 0x00, 0xFF] 0)) 0 False
       = Some (Inr (),
           \<lparr>ram = (replicate 256 0)[0 := 0x10, 1 := 0x00, 2 := 0x41, 3 := 0x40, 4 := 0x00,
                                      5 := 0xFF],
            reg = [65, 0], pc = 6, zero = False, running = False, trace = False,
            stdin = inp, stdout = ''A''\<rparr>)"
    by (simp add: run_def run_loop.simps step_defs load_bin_def char_of_def)
  ultimately show ?thesis by simp
qed

text \<open>
  Claim C2. The first pass advances its counter for a \<open>DB\<close> line by the number of pieces
  that splitting the joined tokens at commas gives. The tokens hold no comma outside
  quotes, so \<open>DB 1, 2\<close> counts 1 and emits 2 bytes, and \<open>DB "AB"\<close> counts 1 and emits 2
  bytes: \<open>mid\<close> is bound to 1 and stands at offset 2 of the output, \<open>end\<close> is bound to 2
  and stands at offset 4.
\<close>

theorem db_size_estimate_short:
  "label_address [''DB 1, 2'', ''mid:'', ''DB '' @ [DQ] @ ''AB'' @ [DQ], ''end:'',
                  ''JMP mid'', ''JMP end''] ''mid'' = Some 1
   \<and> label_address [''DB 1, 2'', ''mid:'', ''DB '' @ [DQ] @ ''AB'' @ [DQ], ''end:'',
                    ''JMP mid'', ''JMP end''] ''end'' = Some 2
   \<and> assemble [''DB 1, 2'', ''mid:'', ''DB '' @ [DQ] @ ''AB'' @ [DQ], ''end:'',
               ''JMP mid'', ''JMP end'']
       = Inr [1, 2, 0x41, 0x42, 0x30, 1, 0x30, 2]"
  by code_simp

subsection \<open>tokenize\<close>

lemma not_space_quote: "\<not> isspace SQ" "\<not> isspace DQ"
  by (simp_all add: isspace_def SQ_def DQ_def)

lemma strip_around:
  assumes "\<not> isspace a" and "\<not> isspace b"
  shows "strip (pre @ a # mid @ b # post)
         = dropWhile isspace pre @ a # mid @ b # rev (dropWhile isspace (rev post))"
proof -
  have 1: "dropWhile isspace (pre @ a # mid @ b # post)
           = dropWhile isspace pre @ a # mid @ b # post"
    using assms(1) by (simp add: dropWhile_append3)
  have "dropWhile isspace (rev post @ b # (rev mid @ a # rev (dropWhile isspace pre)))
        = dropWhile isspace (rev post) @ b # (rev mid @ a # rev (dropWhile isspace pre))"
    using assms(2) by (rule dropWhile_append3)
  then show ?thesis
    by (simp add: strip_def 1)
qed

lemma quote_state_dropWhile:
  "quote_state None (dropWhile isspace xs) = quote_state None xs"
proof (induction xs)
  case Nil
  then show ?case by simp
next
  case (Cons c cs)
  then show ?case
    using not_space_quote by auto
qed

text \<open>Scanning a quoted run from inside the quote.\<close>

lemma loop_in_quote:
  "q \<notin> set body \<Longrightarrow>
   tokenize_loop (body @ q # rest) tokens cur True [q]
   = tokenize_loop rest tokens (cur @ body @ [q]) False [q]"
  by (induction body arbitrary: cur) auto

lemma loop_quoted:
  assumes "q = SQ \<or> q = DQ" and "q \<notin> set body"
  shows "tokenize_loop (q # body @ q # rest) tokens cur False qc
         = tokenize_loop rest tokens (cur @ q # body @ [q]) False [q]"
  using assms loop_in_quote[of q body rest tokens "cur @ [q]"] by auto

text \<open>Scanning a prefix leaves the loop in the quoting state \<open>quote_state\<close> computes.\<close>

lemma loop_prefix:
  "loop_matches st inq qc \<Longrightarrow>
   \<exists>tokens' cur' inq' qc'.
     loop_matches (quote_state st xs) inq' qc'
     \<and> (\<forall>rest. tokenize_loop (xs @ rest) tokens cur inq qc
                 = tokenize_loop rest tokens' cur' inq' qc')"
proof (induction xs arbitrary: st inq qc tokens cur)
  case Nil
  then show ?case by auto
next
  case (Cons c cs)
  show ?case
  proof (cases st)
    case None
    then have ninq: "\<not> inq" using Cons.prems by simp
    show ?thesis
    proof (cases "c = DQ \<or> c = SQ")
      case True
      have "loop_matches (Some c) True [c]" by simp
      from Cons.IH[OF this, of tokens "cur @ [c]"] show ?thesis
        using None ninq True by auto
    next
      case False
      have m: "loop_matches None False qc" by simp
      show ?thesis
      proof (cases "(c = CHR '' '' \<or> c = CHR 0x09 \<or> c = CHR '','') \<and> cur \<noteq> []")
        case True
        from Cons.IH[OF m, of "tokens @ [cur]" "[]"] show ?thesis
          using None ninq False True by auto
      next
        case False2: False
        show ?thesis
        proof (cases "c = CHR '' '' \<or> c = CHR 0x09 \<or> c = CHR '',''")
          case True
          from Cons.IH[OF m, of tokens cur] show ?thesis
            using None ninq False False2 True by auto
        next
          case False3: False
          from Cons.IH[OF m, of tokens "cur @ [c]"] show ?thesis
            using None ninq False False3 by auto
        qed
      qed
    qed
  next
    case (Some q)
    then have inq: "inq" and qc: "qc = [q]" using Cons.prems by simp_all
    show ?thesis
    proof (cases "c = q")
      case True
      have "loop_matches None False [q]" by simp
      from Cons.IH[OF this, of tokens "cur @ [c]"] show ?thesis
        using Some inq qc True by auto
    next
      case False
      have "loop_matches (Some q) True [q]" by simp
      from Cons.IH[OF this, of tokens "cur @ [c]"] show ?thesis
        using Some inq qc False by auto
    qed
  qed
qed

text \<open>One character moves the loop to one of three states.\<close>

lemma loop_step:
  "\<exists>inq2 qc2.
     tokenize_loop (ch # rest) tokens cur inq qc = tokenize_loop rest tokens (cur @ [ch]) inq2 qc2
     \<or> (cur \<noteq> [] \<and> tokenize_loop (ch # rest) tokens cur inq qc
                        = tokenize_loop rest (tokens @ [cur]) [] inq2 qc2)
     \<or> (cur = [] \<and> tokenize_loop (ch # rest) tokens cur inq qc
                        = tokenize_loop rest tokens [] inq2 qc2)"
proof -
  consider (quoted_close) "inq" "[ch] = qc"
    | (quoted) "inq" "[ch] \<noteq> qc"
    | (opens) "\<not> inq" "ch = DQ \<or> ch = SQ"
    | (sep) "\<not> inq" "\<not> (ch = DQ \<or> ch = SQ)"
            "ch = CHR '' '' \<or> ch = CHR 0x09 \<or> ch = CHR '',''" "cur \<noteq> []"
    | (skip) "\<not> inq" "\<not> (ch = DQ \<or> ch = SQ)"
            "ch = CHR '' '' \<or> ch = CHR 0x09 \<or> ch = CHR '',''" "cur = []"
    | (plain) "\<not> inq" "\<not> (ch = DQ \<or> ch = SQ)"
            "\<not> (ch = CHR '' '' \<or> ch = CHR 0x09 \<or> ch = CHR '','')"
    by blast
  then show ?thesis
  proof cases
    case quoted_close
    then have "tokenize_loop (ch # rest) tokens cur inq qc
               = tokenize_loop rest tokens (cur @ [ch]) False qc"
      by simp
    then show ?thesis by blast
  next
    case quoted
    then have "tokenize_loop (ch # rest) tokens cur inq qc
               = tokenize_loop rest tokens (cur @ [ch]) True qc"
      by simp
    then show ?thesis by blast
  next
    case opens
    then have "tokenize_loop (ch # rest) tokens cur inq qc
               = tokenize_loop rest tokens (cur @ [ch]) True [ch]"
      by simp
    then show ?thesis by blast
  next
    case sep
    then have "tokenize_loop (ch # rest) tokens cur inq qc
               = tokenize_loop rest (tokens @ [cur]) [] False qc"
      by simp
    with sep(4) show ?thesis by blast
  next
    case skip
    then have "tokenize_loop (ch # rest) tokens cur inq qc
               = tokenize_loop rest tokens [] False qc"
      by simp
    with skip(4) show ?thesis by blast
  next
    case plain
    then have "tokenize_loop (ch # rest) tokens cur inq qc
               = tokenize_loop rest tokens (cur @ [ch]) False qc"
      by simp
    then show ?thesis by blast
  qed
qed

lemma loop_tokens_extend:
  "\<exists>ts. fst (tokenize_loop xs tokens cur inq qc) = tokens @ ts"
proof (induction xs arbitrary: tokens cur inq qc)
  case Nil
  then show ?case by simp
next
  case (Cons ch rest)
  obtain inq2 qc2 where
    "tokenize_loop (ch # rest) tokens cur inq qc = tokenize_loop rest tokens (cur @ [ch]) inq2 qc2
     \<or> tokenize_loop (ch # rest) tokens cur inq qc
         = tokenize_loop rest (tokens @ [cur]) [] inq2 qc2
     \<or> tokenize_loop (ch # rest) tokens cur inq qc = tokenize_loop rest tokens [] inq2 qc2"
    using loop_step[of ch rest tokens cur inq qc] by blast
  then show ?case
  proof (elim disjE)
    assume e: "tokenize_loop (ch # rest) tokens cur inq qc
               = tokenize_loop rest tokens (cur @ [ch]) inq2 qc2"
    show ?thesis unfolding e by (rule Cons.IH)
  next
    assume e: "tokenize_loop (ch # rest) tokens cur inq qc
               = tokenize_loop rest (tokens @ [cur]) [] inq2 qc2"
    obtain ts where "fst (tokenize_loop rest (tokens @ [cur]) [] inq2 qc2)
                     = (tokens @ [cur]) @ ts"
      using Cons.IH by blast
    then have "fst (tokenize_loop rest (tokens @ [cur]) [] inq2 qc2) = tokens @ (cur # ts)"
      by simp
    then show ?thesis unfolding e by blast
  next
    assume e: "tokenize_loop (ch # rest) tokens cur inq qc
               = tokenize_loop rest tokens [] inq2 qc2"
    show ?thesis unfolding e by (rule Cons.IH)
  qed
qed

text \<open>A non-empty \<open>current\<close> ends up at the head of a token, or of the final \<open>current\<close>.\<close>

lemma loop_keeps_current:
  "cur \<noteq> [] \<Longrightarrow>
   \<exists>w ts. fst (tokenize_loop xs tokens cur inq qc) = tokens @ (cur @ w) # ts
         \<or> tokenize_loop xs tokens cur inq qc = (tokens, cur @ w)"
proof (induction xs arbitrary: tokens cur inq qc)
  case Nil
  then show ?case by simp
next
  case (Cons ch rest)
  obtain inq2 qc2 where
    "tokenize_loop (ch # rest) tokens cur inq qc = tokenize_loop rest tokens (cur @ [ch]) inq2 qc2
     \<or> tokenize_loop (ch # rest) tokens cur inq qc
         = tokenize_loop rest (tokens @ [cur]) [] inq2 qc2"
    using loop_step[of ch rest tokens cur inq qc] Cons.prems by blast
  then show ?case
  proof (elim disjE)
    assume e: "tokenize_loop (ch # rest) tokens cur inq qc
               = tokenize_loop rest tokens (cur @ [ch]) inq2 qc2"
    have "cur @ [ch] \<noteq> []" by simp
    from Cons.IH[OF this, of tokens inq2 qc2]
    obtain w ts where
      "fst (tokenize_loop rest tokens (cur @ [ch]) inq2 qc2) = tokens @ ((cur @ [ch]) @ w) # ts
       \<or> tokenize_loop rest tokens (cur @ [ch]) inq2 qc2 = (tokens, (cur @ [ch]) @ w)"
      by blast
    then have
      "fst (tokenize_loop rest tokens (cur @ [ch]) inq2 qc2) = tokens @ (cur @ (ch # w)) # ts
       \<or> tokenize_loop rest tokens (cur @ [ch]) inq2 qc2 = (tokens, cur @ (ch # w))"
      by simp
    then show ?thesis unfolding e by blast
  next
    assume e: "tokenize_loop (ch # rest) tokens cur inq qc
               = tokenize_loop rest (tokens @ [cur]) [] inq2 qc2"
    obtain ts where "fst (tokenize_loop rest (tokens @ [cur]) [] inq2 qc2)
                     = (tokens @ [cur]) @ ts"
      using loop_tokens_extend by blast
    then have "fst (tokenize_loop rest (tokens @ [cur]) [] inq2 qc2)
               = tokens @ (cur @ []) # ts"
      by simp
    then show ?thesis unfolding e by blast
  qed
qed


lemma takeWhile_all: "x \<notin> set xs \<Longrightarrow> takeWhile (\<lambda>c. c \<noteq> x) xs = xs"
  by (induction xs) auto

lemma tokenize_comment:
  assumes "CHR '';'' \<notin> set code"
  shows "tokenize (code @ CHR '';'' # comment) = tokenize code"
proof -
  have "takeWhile (\<lambda>c. c \<noteq> CHR '';'') (code @ CHR '';'' # comment) = code"
    using assms by (induction code) auto
  then show ?thesis
    by (simp only: tokenize_def takeWhile_all[OF assms])
qed

lemma tokenize_quoted:
  assumes semi: "CHR '';'' \<notin> set (pre @ q # body @ q # post)"
    and q: "q = SQ \<or> q = DQ"
    and body: "q \<notin> set body"
    and pre: "quote_state None pre = None"
  shows "\<exists>t \<in> set (tokenize (pre @ q # body @ q # post)). \<exists>u v. t = u @ q # body @ q # v"
proof -
  define pre' where "pre' = dropWhile isspace pre"
  define post' where "post' = rev (dropWhile isspace (rev post))"
  have nsp: "\<not> isspace q"
    using q not_space_quote by auto
  have line: "strip (takeWhile (\<lambda>c. c \<noteq> CHR '';'') (pre @ q # body @ q # post))
              = pre' @ q # body @ q # post'"
    by (simp only: takeWhile_all[OF semi] strip_around[OF nsp nsp] pre'_def post'_def)
  have "loop_matches None False []"
    by simp
  from loop_prefix[OF this, of pre' "[]" "[]"]
  obtain tokens1 cur1 inq1 qc1 where
    m: "loop_matches (quote_state None pre') inq1 qc1"
    and l1: "\<And>rest. tokenize_loop (pre' @ rest) [] [] False []
                   = tokenize_loop rest tokens1 cur1 inq1 qc1"
    by blast
  have "quote_state None pre' = None"
    using pre by (simp add: pre'_def quote_state_dropWhile)
  then have ninq: "\<not> inq1"
    using m by simp
  have l2: "tokenize_loop (pre' @ q # body @ q # post') [] [] False []
            = tokenize_loop post' tokens1 (cur1 @ q # body @ [q]) False [q]"
    using l1[of "q # body @ q # post'"] ninq loop_quoted[OF q body, of post' tokens1 cur1 qc1]
    by simp
  have ne: "cur1 @ q # body @ [q] \<noteq> []"
    by simp
  from loop_keeps_current[OF ne, of post' tokens1 False "[q]"]
  obtain w ts where
    "fst (tokenize_loop post' tokens1 (cur1 @ q # body @ [q]) False [q])
       = tokens1 @ ((cur1 @ q # body @ [q]) @ w) # ts
     \<or> tokenize_loop post' tokens1 (cur1 @ q # body @ [q]) False [q]
       = (tokens1, (cur1 @ q # body @ [q]) @ w)"
    by blast
  note alt = this
  obtain tk cu where r: "tokenize_loop post' tokens1 (cur1 @ q # body @ [q]) False [q] = (tk, cu)"
    by (cases "tokenize_loop post' tokens1 (cur1 @ q # body @ [q]) False [q]")
  have tz: "tokenize (pre @ q # body @ q # post) = (if cu \<noteq> [] then tk @ [cu] else tk)"
    by (simp add: tokenize_def line l2 r)
  have "(cur1 @ q # body @ [q]) @ w \<in> set (if cu \<noteq> [] then tk @ [cu] else tk)"
    using alt unfolding r by auto
  then have "(cur1 @ q # body @ [q]) @ w \<in> set (tokenize (pre @ q # body @ q # post))"
    by (simp only: tz)
  moreover have "(cur1 @ q # body @ [q]) @ w = cur1 @ q # body @ q # w"
    by simp
  ultimately show ?thesis
    by metis
qed


text \<open>
  Claim C8. \<open>tokenize\<close> cuts the line at its first \<open>;\<close> before the loop that reads the
  quotes runs, so a \<open>;\<close> inside quotes ends the line: the quoted token \<open>";"\<close> of the
  line \<open>DB ";"\<close> loses its \<open>;\<close> and its closing quote.
\<close>

theorem semicolon_in_quotes: "tokenize (''DB '' @ [DQ] @ '';'' @ [DQ]) = [''DB'', [DQ]]"
  by code_simp

text \<open>
  The loop itself, run on the same line uncut, keeps the quoted token whole. With the
  cut, the data byte of \<open>DB ";"\<close> is lost without an error, and the character literal
  of \<open>LDI A, ';'\<close> is refused.
\<close>

lemma quote_loop_keeps_semicolon:
  "tokenize_loop (''DB '' @ [DQ] @ '';'' @ [DQ]) [] [] False []
   = ([''DB''], [DQ] @ '';'' @ [DQ])"
  by code_simp

lemma quoted_semicolon_effects:
  "assemble [''DB '' @ [DQ] @ '';'' @ [DQ], ''HLT''] = Inr [0xFF]"
  "assemble [''LDI A, '' @ [SQ] @ '';'' @ [SQ]] = Inl (UnknownValue [SQ])"
  by code_simp+

text \<open>
  What the tokenizer keeps. For a text \<open>code\<close> without \<open>;\<close>, the tokens of
  \<open>code ; comment\<close> are the tokens of \<open>code\<close>. A quoted run \<open>q body q\<close> of \<open>code\<close> that
  opens outside any quote stays together inside one token, with its white space and its
  commas.
\<close>

lemma tokenize_comment_and_quotes:
  assumes "CHR '';'' \<notin> set code"
  shows "tokenize (code @ CHR '';'' # comment) = tokenize code
         \<and> (code = pre @ q # body @ q # post \<and> (q = SQ \<or> q = DQ) \<and> q \<notin> set body
              \<and> quote_state None pre = None
            \<longrightarrow> (\<exists>t \<in> set (tokenize (code @ CHR '';'' # comment)).
                   \<exists>u v. t = u @ q # body @ q # v))"
proof (intro conjI impI)
  show c: "tokenize (code @ CHR '';'' # comment) = tokenize code"
    using assms by (rule tokenize_comment)
  assume h: "code = pre @ q # body @ q # post \<and> (q = SQ \<or> q = DQ) \<and> q \<notin> set body
              \<and> quote_state None pre = None"
  then have e: "code = pre @ q # body @ q # post" and q: "q = SQ \<or> q = DQ"
    and b: "q \<notin> set body" and p: "quote_state None pre = None"
    by simp_all
  have semi: "CHR '';'' \<notin> set (pre @ q # body @ q # post)"
    using assms unfolding e .
  show "\<exists>t \<in> set (tokenize (code @ CHR '';'' # comment)). \<exists>u v. t = u @ q # body @ q # v"
    unfolding c unfolding e by (rule tokenize_quoted[OF semi q b p])
qed

text \<open>The line \<open>DB "a, b" 1 ; note\<close>.\<close>

lemma tokenize_comment_and_quotes_example:
  "CHR '';'' \<notin> set (''DB '' @ DQ # ''a, b'' @ DQ # '' 1 '')
   \<and> tokenize ((''DB '' @ DQ # ''a, b'' @ DQ # '' 1 '') @ CHR '';'' # '' note'')
       = tokenize (''DB '' @ DQ # ''a, b'' @ DQ # '' 1 '')
   \<and> (\<exists>t \<in> set (tokenize ((''DB '' @ DQ # ''a, b'' @ DQ # '' 1 '') @ CHR '';'' # '' note'')).
         \<exists>u v. t = u @ DQ # ''a, b'' @ DQ # v)"
proof -
  have s: "CHR '';'' \<notin> set (''DB '' @ DQ # ''a, b'' @ DQ # '' 1 '')"
    by (simp add: DQ_def)
  have b: "DQ \<notin> set ''a, b''" and p: "quote_state None ''DB '' = None"
    by (simp_all add: DQ_def SQ_def)
  note th = tokenize_comment_and_quotes[OF s, of "'' note''" "''DB ''" DQ "''a, b''" "'' 1 ''"]
  have h: "''DB '' @ DQ # ''a, b'' @ DQ # '' 1 '' = ''DB '' @ DQ # ''a, b'' @ DQ # '' 1 ''
           \<and> (DQ = SQ \<or> DQ = DQ) \<and> DQ \<notin> set ''a, b'' \<and> quote_state None ''DB '' = None"
    using b p by simp
  have 1: "tokenize ((''DB '' @ DQ # ''a, b'' @ DQ # '' 1 '') @ CHR '';'' # '' note'')
           = tokenize (''DB '' @ DQ # ''a, b'' @ DQ # '' 1 '')"
    using th by (rule conjunct1)
  have 2: "\<exists>t \<in> set (tokenize ((''DB '' @ DQ # ''a, b'' @ DQ # '' 1 '') @ CHR '';'' # '' note'')).
             \<exists>u v. t = u @ DQ # ''a, b'' @ DQ # v"
    using th h by (rule conjunct2[THEN mp])
  show ?thesis
    using s 1 2 by (intro conjI)
qed


subsection \<open>Decimal literals\<close>

lemma digit_chars:
  assumes "c \<in> set ''0123456789''"
  shows "word_char c" and "isdigit_char c" and "digit_value c < 10"
    and "c \<noteq> CHR ''_''" and "c \<noteq> CHR ''x''" and "c \<noteq> CHR ''-''" and "c \<noteq> CHR ''+''"
    and "c \<noteq> CHR '':''" and "\<not> isspace c" and "c \<noteq> SQ" and "c \<noteq> CHR '';''"
  using assms
  by (auto simp: word_char_def isspace_def isdigit_char_def digit_value_def SQ_def DQ_def)

lemma digit_nth: "d < 10 \<Longrightarrow> ''0123456789'' ! d \<in> set ''0123456789''"
  by (rule nth_mem) simp

lemma digit_value_nth: "d < 10 \<Longrightarrow> digit_value (''0123456789'' ! d) = d"
proof -
  assume "d < 10"
  then have "d = 0 \<or> d = 1 \<or> d = 2 \<or> d = 3 \<or> d = 4 \<or> d = 5 \<or> d = 6
    \<or> d = 7 \<or> d = 8 \<or> d = 9"
    by arith
  then show ?thesis
    by (elim disjE) (simp_all add: digit_value_def)
qed

lemma decimal_set: "set (decimal n) \<subseteq> set ''0123456789''"
proof (induction n rule: decimal.induct)
  case (1 n)
  show ?case
  proof (cases "n < 10")
    case True
    then show ?thesis
      using digit_nth[of n] by (subst decimal.simps) simp
  next
    case False
    have "n mod 10 < 10" by simp
    then show ?thesis
      using 1[OF False] False digit_nth[of "n mod 10"] by (subst decimal.simps) simp
  qed
qed

lemma decimal_ne: "decimal n \<noteq> []"
  by (subst decimal.simps) simp


lemma decimal_chars:
  assumes "c \<in> set (decimal n)"
  shows "word_char c" and "isdigit_char c" and "digit_value c < 10"
    and "c \<noteq> CHR ''_''" and "c \<noteq> CHR ''x''" and "c \<noteq> CHR ''-''" and "c \<noteq> CHR ''+''"
    and "c \<noteq> CHR '':''" and "\<not> isspace c" and "c \<noteq> SQ" and "c \<noteq> CHR '';''"
proof -
  have "c \<in> set ''0123456789''"
    using assms decimal_set[of n] by (rule subsetD[rotated])
  then show "word_char c" and "isdigit_char c" and "digit_value c < 10"
    and "c \<noteq> CHR ''_''" and "c \<noteq> CHR ''x''" and "c \<noteq> CHR ''-''" and "c \<noteq> CHR ''+''"
    and "c \<noteq> CHR '':''" and "\<not> isspace c" and "c \<noteq> SQ" and "c \<noteq> CHR '';''"
    by (rule digit_chars)+
qed

lemma decimal_hd: "hd (decimal n) \<in> set (decimal n)"
  and decimal_last: "last (decimal n) \<in> set (decimal n)"
  using decimal_ne[of n] by simp_all

text \<open>The value of a decimal literal.\<close>

lemma int_body_value_snoc:
  "c \<noteq> CHR ''_'' \<Longrightarrow>
   int_body_value b (xs @ [c]) = int_body_value b xs * int b + int (digit_value c)"
  by (simp add: int_body_value_def)

lemma int_body_value_decimal: "int_body_value 10 (decimal n) = int n"
proof (induction n rule: decimal.induct)
  case (1 n)
  show ?case
  proof (cases "n < 10")
    case True
    then show ?thesis
      using digit_value_nth[of n]
      by (subst decimal.simps) (simp add: int_body_value_def digit_chars(4)[OF digit_nth])
  next
    case False
    have m: "n mod 10 < 10" by simp
    have "int_body_value 10 (decimal n)
          = int_body_value 10 (decimal (n div 10)) * 10 + int (n mod 10)"
      using False digit_value_nth[OF m] digit_chars(4)[OF digit_nth[OF m]]
      by (subst decimal.simps) (simp add: int_body_value_snoc)
    also have "\<dots> = int (n div 10) * 10 + int (n mod 10)"
      using 1[OF False] by simp
    also have "\<dots> = int n"
      by presburger
    finally show ?thesis .
  qed
qed

lemma no_double_underscore_free: "CHR ''_'' \<notin> set xs \<Longrightarrow> no_double_underscore xs"
  by (induction xs rule: no_double_underscore.induct) auto

lemma int_body_ok_decimal: "int_body_ok 10 (decimal n)"
proof -
  have u: "CHR ''_'' \<notin> set (decimal n)"
    using decimal_chars(4) by blast
  have "list_all (\<lambda>c. c = CHR ''_'' \<or> digit_value c < 10) (decimal n)"
    using decimal_chars(3) by (auto simp: list_all_iff)
  then show ?thesis
    using decimal_ne[of n] decimal_chars(4)[OF decimal_hd] decimal_chars(4)[OF decimal_last]
      no_double_underscore_free[OF u]
    by (simp add: int_body_ok_def)
qed

lemma py_int_decimal: "py_int (decimal n) 10 = Inr (int n)"
  using decimal_chars(6)[OF decimal_hd, of n] decimal_chars(7)[OF decimal_hd, of n]
    int_body_ok_decimal[of n]
  by (simp add: py_int_def int_body_value_decimal)

text \<open>Stripping and scanning words.\<close>

lemma strip_id: "s \<noteq> [] \<Longrightarrow> \<not> isspace (hd s) \<Longrightarrow> \<not> isspace (last s) \<Longrightarrow> strip s = s"
proof -
  assume ne: "s \<noteq> []" and h: "\<not> isspace (hd s)" and l: "\<not> isspace (last s)"
  have 1: "dropWhile isspace s = s"
    using ne h by (cases s) simp_all
  obtain ys y where s: "s = ys @ [y]"
    using ne by (cases s rule: rev_cases) simp_all
  have 2: "dropWhile isspace (rev s) = rev s"
    using l by (simp add: s)
  show ?thesis
    by (simp only: strip_def 1 2 rev_rev_ident)
qed

lemma strip_decimal: "strip (decimal n) = decimal n"
  using decimal_ne decimal_chars(9)[OF decimal_hd] decimal_chars(9)[OF decimal_last]
  by (rule strip_id)

lemma startswith_single: "startswith s [c] = (s \<noteq> [] \<and> hd s = c)"
  by (cases s) (simp_all add: startswith_def)

lemma endswith_single: "endswith s [c] = (s \<noteq> [] \<and> last s = c)"
proof (cases s rule: rev_cases)
  case Nil
  then show ?thesis by (simp add: endswith_def)
next
  case (snoc ys y)
  then show ?thesis by (simp add: endswith_def)
qed

lemma parse_value_decimal:
  assumes "n < 256"
  shows "parse_value (decimal n) labels = Inr (int n)"
proof -
  have a: "\<not> startswith (decimal n) [SQ]"
    using decimal_chars(10)[OF decimal_hd, of n] by (simp add: startswith_single)
  have b: "\<not> startswith (decimal n) ''0x''"
  proof
    assume "startswith (decimal n) ''0x''"
    then have "''0x'' = take (length ''0x'') (decimal n)"
      by (simp only: startswith_def)
    moreover have "CHR ''x'' \<in> set ''0x''"
      by simp
    ultimately have "CHR ''x'' \<in> set (take (length ''0x'') (decimal n))"
      by (simp only:)
    then have "CHR ''x'' \<in> set (decimal n)"
      by (rule in_set_takeD)
    then show False
      using decimal_chars(5) by blast
  qed
  have c: "isdigit (decimal n)"
    using decimal_ne decimal_chars(2) by (auto simp: isdigit_def list_all_iff)
  have "int n AND 0xFF = int n"
    using assms by (simp add: byte_and is_byte_def)
  then show ?thesis
    using a b c by (simp add: parse_value_def strip_decimal py_int_decimal)
qed

subsection \<open>Lines of words\<close>


lemma loop_word:
  "list_all word_char t \<Longrightarrow>
   tokenize_loop (t @ rest) tokens cur False qc = tokenize_loop rest tokens (cur @ t) False qc"
proof (induction t arbitrary: cur)
  case Nil
  then show ?case by simp
next
  case (Cons c cs)
  have w: "word_char c" and ws: "list_all word_char cs"
    using Cons.prems by simp_all
  have "c \<noteq> CHR '' ''" and "c \<noteq> CHR 0x09"
    using w by (auto simp: word_char_def isspace_def)
  then have "tokenize_loop ((c # cs) @ rest) tokens cur False qc
             = tokenize_loop (cs @ rest) tokens (cur @ [c]) False qc"
    using w by (simp add: word_char_def)
  then show ?case
    using Cons.IH[OF ws, of "cur @ [c]"] by simp
qed

lemma loop_word_end:
  "list_all word_char t \<Longrightarrow> tokenize_loop t tokens cur False qc = (tokens, cur @ t)"
  using loop_word[of t "[]" tokens cur qc] by simp

lemma word_no_semicolon: "list_all word_char t \<Longrightarrow> CHR '';'' \<notin> set t"
  by (auto simp: list_all_iff word_char_def)

lemma word_ends:
  assumes "list_all word_char t" and "t \<noteq> []"
  shows "\<not> isspace (hd t)" and "\<not> isspace (last t)"
  using assms by (auto simp: list_all_iff word_char_def)

lemma tokenize_2:
  assumes w1: "list_all word_char w1" "w1 \<noteq> []" and t: "list_all word_char t" "t \<noteq> []"
  shows "strip (w1 @ '' '' @ t) = w1 @ '' '' @ t"
    and "tokenize (w1 @ '' '' @ t) = [w1, t]"
proof -
  have semi: "CHR '';'' \<notin> set (w1 @ '' '' @ t)"
    using word_no_semicolon[OF w1(1)] word_no_semicolon[OF t(1)] by simp
  have "hd (w1 @ '' '' @ t) = hd w1" and "last (w1 @ '' '' @ t) = last t"
    using w1(2) t(2) by simp_all
  then show s: "strip (w1 @ '' '' @ t) = w1 @ '' '' @ t"
    using word_ends[OF w1] word_ends[OF t] strip_id[of "w1 @ '' '' @ t"] w1(2) by simp
  have "tokenize_loop (w1 @ '' '' @ t) [] [] False [] = ([w1], t)"
    using w1(2) by (simp add: loop_word[OF w1(1)] loop_word_end[OF t(1)] DQ_def SQ_def)
  then show "tokenize (w1 @ '' '' @ t) = [w1, t]"
    using t(2) w1(2) by (simp only: tokenize_def takeWhile_all[OF semi] s Let_def) simp
qed

lemma tokenize_3:
  assumes w1: "list_all word_char w1" "w1 \<noteq> []" and w2: "list_all word_char w2" "w2 \<noteq> []"
    and t: "list_all word_char t" "t \<noteq> []"
  shows "strip (w1 @ '' '' @ w2 @ '', '' @ t) = w1 @ '' '' @ w2 @ '', '' @ t"
    and "tokenize (w1 @ '' '' @ w2 @ '', '' @ t) = [w1, w2, t]"
proof -
  have semi: "CHR '';'' \<notin> set (w1 @ '' '' @ w2 @ '', '' @ t)"
    using word_no_semicolon[OF w1(1)] word_no_semicolon[OF w2(1)] word_no_semicolon[OF t(1)]
    by simp
  have "hd (w1 @ '' '' @ w2 @ '', '' @ t) = hd w1"
    and "last (w1 @ '' '' @ w2 @ '', '' @ t) = last t"
    using w1(2) t(2) by simp_all
  then show s: "strip (w1 @ '' '' @ w2 @ '', '' @ t) = w1 @ '' '' @ w2 @ '', '' @ t"
    using word_ends[OF w1] word_ends[OF t] strip_id[of "w1 @ '' '' @ w2 @ '', '' @ t"] w1(2)
    by simp
  have "tokenize_loop (w1 @ '' '' @ w2 @ '', '' @ t) [] [] False [] = ([w1, w2], t)"
    using w1(2) w2(2)
    by (simp add: loop_word[OF w1(1)] loop_word[OF w2(1)] loop_word_end[OF t(1)] DQ_def SQ_def)
  then show "tokenize (w1 @ '' '' @ w2 @ '', '' @ t) = [w1, w2, t]"
    using t(2) w1(2) by (simp only: tokenize_def takeWhile_all[OF semi] s Let_def) simp
qed

lemma assemble_one:
  assumes "strip line = line" and "line \<noteq> []" and "\<not> startswith line '';''"
    and "\<not> endswith line '':''" and "tokenize line = op # args"
    and "size_estimate (upper op) (op # args) = Inr k"
  shows "assemble [line] = emit Map.empty (0, upper op, args)"
  using assms by (cases "emit Map.empty (0, upper op, args)") (simp_all add: assemble_def)

lemma decimal_word: "list_all word_char (decimal n)"
  using decimal_chars(1) by (auto simp: list_all_iff)

lemma reg_token_word: "list_all word_char (reg_token r)" "reg_token r \<noteq> []"
  by (cases r; simp add: word_char_def isspace_def SQ_def DQ_def)+

lemma reg_token_get:
  "REGS_get (upper (rstrip_comma (strip (reg_token r)))) = Inr (int (reg_index r))"
  "REGS_get (upper (strip (reg_token r))) = Inr (int (reg_index r))"
  by (cases r; simp add: REGS_get_def REGS_def upper_def upper_char_def rstrip_comma_def
        strip_def isspace_def)+

lemma last_app3: "t \<noteq> [] \<Longrightarrow> last (a @ b @ t) = last t"
  by simp

lemma line_checks:
  assumes "mn \<noteq> []" and "hd mn \<noteq> CHR '';''" and "t \<noteq> []" and "last t \<noteq> CHR '':''"
  shows "mn @ mid @ t \<noteq> []" and "\<not> startswith (mn @ mid @ t) '';''"
    and "\<not> endswith (mn @ mid @ t) '':''"
proof -
  show "mn @ mid @ t \<noteq> []"
    using assms(1) by simp
  have "hd (mn @ mid @ t) = hd mn"
    using assms(1) by simp
  then show "\<not> startswith (mn @ mid @ t) '';''"
    using assms(2) by (simp only: startswith_single) simp
  have "last (mn @ mid @ t) = last t"
    using assms(3) by simp
  then show "\<not> endswith (mn @ mid @ t) '':''"
    using assms(4) by (simp only: endswith_single) simp
qed

lemma emit_reg_value_decimal:
  assumes "n < 256"
  shows "emit_reg_value opc labels [reg_token r, decimal n] = Inr [opc, int (reg_index r), int n]"
proof -
  have "int n AND 0xFF = int n"
    using assms by (simp add: byte_and is_byte_def)
  then show ?thesis
    by (simp add: emit_reg_value_def getitem_def reg_token_get strip_decimal
        parse_value_decimal[OF assms])
qed

lemma asm_reg_value:
  assumes n: "n < 256"
    and w1: "list_all word_char mn" "mn \<noteq> []" "hd mn \<noteq> CHR '';''"
    and up: "upper mn = mn"
    and sz: "size_estimate mn [mn, reg_token r, decimal n] = Inr 3"
    and em: "emit Map.empty (0, mn, [reg_token r, decimal n])
             = emit_reg_value opc Map.empty [reg_token r, decimal n]"
  shows "assemble [mn @ '' '' @ reg_token r @ '', '' @ decimal n]
         = Inr [opc, int (reg_index r), int n]"
proof -
  have s: "strip (mn @ '' '' @ reg_token r @ '', '' @ decimal n)
           = mn @ '' '' @ reg_token r @ '', '' @ decimal n"
    and tk: "tokenize (mn @ '' '' @ reg_token r @ '', '' @ decimal n)
           = [mn, reg_token r, decimal n]"
    using tokenize_3[OF w1(1,2) reg_token_word decimal_word decimal_ne] by blast+
  have l: "last (decimal n) \<noteq> CHR '':''"
    using decimal_chars(8)[OF decimal_last] .
  note c = line_checks[OF w1(2,3) decimal_ne l, of "'' '' @ reg_token r @ '', ''", simplified append_assoc]
  have sz': "size_estimate (upper mn) [mn, reg_token r, decimal n] = Inr 3"
    by (simp only: up sz)
  have "assemble [mn @ '' '' @ reg_token r @ '', '' @ decimal n]
        = emit Map.empty (0, upper mn, [reg_token r, decimal n])"
    using s c tk sz' by (rule assemble_one)
  then show ?thesis
    by (simp only: up em emit_reg_value_decimal[OF n])
qed

lemma asm_LDI:
  "n < 256 \<Longrightarrow> assemble [''LDI '' @ reg_token r @ '', '' @ decimal n]
                  = Inr [0x10, int (reg_index r), int n]"
  using asm_reg_value[of n "''LDI''" r "0x10"]
  by (simp add: word_char_def isspace_def SQ_def DQ_def upper_def upper_char_def
      size_estimate_def emit_def OP_defs)


lemma asm_MOV:
  "n < 256 \<Longrightarrow> assemble [''MOV '' @ reg_token r @ '', '' @ decimal n]
                  = Inr [0x11, int (reg_index r), int n]"
  using asm_reg_value[of n "''MOV''" r "0x11"]
  by (simp add: word_char_def isspace_def SQ_def DQ_def upper_def upper_char_def
      size_estimate_def emit_def OP_defs)

lemma asm_STR:
  "n < 256 \<Longrightarrow> assemble [''STR '' @ reg_token r @ '', '' @ decimal n]
                  = Inr [0x12, int (reg_index r), int n]"
  using asm_reg_value[of n "''STR''" r "0x12"]
  by (simp add: word_char_def isspace_def SQ_def DQ_def upper_def upper_char_def
      size_estimate_def emit_def OP_defs)

lemma emit_jump_decimal:
  assumes "n < 256"
  shows "emit_jump opc labels [decimal n] = Inr [opc, int n]"
proof -
  have "int n AND 0xFF = int n"
    using assms by (simp add: byte_and is_byte_def)
  then show ?thesis
    by (simp add: emit_jump_def getitem_def strip_decimal parse_value_decimal[OF assms])
qed

lemma asm_jump:
  assumes n: "n < 256"
    and w1: "list_all word_char mn" "mn \<noteq> []" "hd mn \<noteq> CHR '';''"
    and up: "upper mn = mn"
    and sz: "size_estimate mn [mn, decimal n] = Inr 2"
    and em: "emit Map.empty (0, mn, [decimal n]) = emit_jump opc Map.empty [decimal n]"
  shows "assemble [mn @ '' '' @ decimal n] = Inr [opc, int n]"
proof -
  have s: "strip (mn @ '' '' @ decimal n) = mn @ '' '' @ decimal n"
    and tk: "tokenize (mn @ '' '' @ decimal n) = [mn, decimal n]"
    using tokenize_2[OF w1(1,2) decimal_word decimal_ne] by blast+
  have l: "last (decimal n) \<noteq> CHR '':''"
    using decimal_chars(8)[OF decimal_last] .
  note c = line_checks[OF w1(2,3) decimal_ne l, of "'' ''"]
  have sz': "size_estimate (upper mn) [mn, decimal n] = Inr 2"
    by (simp only: up sz)
  have "assemble [mn @ '' '' @ decimal n] = emit Map.empty (0, upper mn, [decimal n])"
    using s c tk sz' by (rule assemble_one)
  then show ?thesis
    by (simp only: up em emit_jump_decimal[OF n])
qed

lemma asm_JMP: "n < 256 \<Longrightarrow> assemble [''JMP '' @ decimal n] = Inr [0x30, int n]"
  using asm_jump[of n "''JMP''" "0x30"]
  by (simp add: word_char_def isspace_def SQ_def DQ_def upper_def upper_char_def
      size_estimate_def emit_def OP_defs)

lemma asm_JZ: "n < 256 \<Longrightarrow> assemble [''JZ '' @ decimal n] = Inr [0x31, int n]"
  using asm_jump[of n "''JZ''" "0x31"]
  by (simp add: word_char_def isspace_def SQ_def DQ_def upper_def upper_char_def
      size_estimate_def emit_def OP_defs)

lemma asm_JNZ: "n < 256 \<Longrightarrow> assemble [''JNZ '' @ decimal n] = Inr [0x32, int n]"
  using asm_jump[of n "''JNZ''" "0x32"]
  by (simp add: word_char_def isspace_def SQ_def DQ_def upper_def upper_char_def
      size_estimate_def emit_def OP_defs)

lemma asm_fixed:
  "assemble [''NOP''] = Inr [0x00]"
  "assemble [''HLT''] = Inr [0xFF]"
  "assemble [''OUT A''] = Inr [0x40, 0]"
  "assemble [''OUT B''] = Inr [0x40, 1]"
  "assemble [''IN A''] = Inr [0x41, 0]"
  "assemble [''IN B''] = Inr [0x41, 1]"
  "assemble [''ADD A, A''] = Inr [0x20, 0, 0]"
  "assemble [''ADD A, B''] = Inr [0x20, 0, 1]"
  "assemble [''ADD B, A''] = Inr [0x20, 1, 0]"
  "assemble [''ADD B, B''] = Inr [0x20, 1, 1]"
  "assemble [''SUB A, A''] = Inr [0x21, 0, 0]"
  "assemble [''SUB A, B''] = Inr [0x21, 0, 1]"
  "assemble [''SUB B, A''] = Inr [0x21, 1, 0]"
  "assemble [''SUB B, B''] = Inr [0x21, 1, 1]"
  by code_simp+

lemma assemble_source_line:
  assumes v: "operands_valid i"
  shows "assemble [source_line i] = Inr (encoding i)"
proof (cases i)
  case (I_OUT r)
  then show ?thesis by (cases r) (simp_all add: asm_fixed)
next
  case (I_IN r)
  then show ?thesis by (cases r) (simp_all add: asm_fixed)
next
  case (I_ADD r1 r2)
  then show ?thesis by (cases r1; cases r2) (simp_all add: asm_fixed)
next
  case (I_SUB r1 r2)
  then show ?thesis by (cases r1; cases r2) (simp_all add: asm_fixed)
next
  case (I_LDI r n)
  then show ?thesis using v asm_LDI[of n r] by simp
next
  case (I_MOV r n)
  then show ?thesis using v asm_MOV[of n r] by simp
next
  case (I_STR r n)
  then show ?thesis using v asm_STR[of n r] by simp
next
  case (I_JMP n)
  then show ?thesis using v asm_JMP[of n] by simp
next
  case (I_JZ n)
  then show ?thesis using v asm_JZ[of n] by simp
next
  case (I_JNZ n)
  then show ?thesis using v asm_JNZ[of n] by simp
qed (simp_all add: asm_fixed)

subsection \<open>One step on an assembled instruction\<close>

lemma load_bin_small:
  assumes "length (ram s) = 256"
  shows "snd (load_bin s [a] 0) = s\<lparr>ram := (ram s)[0 := a AND 0xFF]\<rparr>"
    and "snd (load_bin s [a, b] 0) = s\<lparr>ram := (ram s)[0 := a AND 0xFF, 1 := b AND 0xFF]\<rparr>"
    and "snd (load_bin s [a, b, c] 0)
         = s\<lparr>ram := (ram s)[0 := a AND 0xFF, 1 := b AND 0xFF, 2 := c AND 0xFF]\<rparr>"
  using assms by (simp_all add: load_bin_def setitem_def RAM_SIZE_def)

lemma reg_index_byte: "int (reg_index r) AND 0xFF = int (reg_index r)" "int (reg_index r) < 2"
  "nat (int (reg_index r)) = reg_index r" "reg_index r < 2"
  by (cases r; simp)+

lemma step_dispatch:
  assumes ok: "cpu_ok s"
  obtains s1 where "cpu_ok s1" and "ram s1 = ram s" and "reg s1 = reg s"
    and "pc s1 = (pc s + 1) mod 256" and "zero s1 = zero s" and "stdin s1 = stdin s"
    and "step s =
      (let opcode = ram s ! nat (pc s) in
         if opcode = 0x00 then (Inr True, s1)
         else if opcode = 0x10 then step_LDI s1
         else if opcode = 0x11 then step_MOV s1
         else if opcode = 0x12 then step_STR s1
         else if opcode = 0x20 then step_arith (+) s1
         else if opcode = 0x21 then step_arith (-) s1
         else if opcode = 0x30 then step_JMP s1
         else if opcode = 0x31 then step_Jcond True s1
         else if opcode = 0x32 then step_Jcond False s1
         else if opcode = 0x40 then step_OUT s1
         else if opcode = 0x41 then step_IN s1
         else if opcode = 0xFF then (Inr False, s1)
         else (Inr False,
               s1\<lparr>stdout := stdout s1 @ ''Unknown opcode '' @ fmt_02X opcode @ '' at ''
                                @ fmt_02X (pc s1 - 1) @ [CHR 0x0A]\<rparr>))"
proof -
  obtain s1 where f: "fetch_opcode s = (Inr (ram s ! nat (pc s)), s1)"
    and ok1: "cpu_ok s1" and m: "ram s1 = ram s" and g: "reg s1 = reg s"
    and p: "pc s1 = (pc s + 1) mod 256" and z: "zero s1 = zero s"
    and i: "stdin s1 = stdin s"
    using fetch_opcode_ok[OF ok] by blast
  have "step s =
      (let opcode = ram s ! nat (pc s) in
         if opcode = 0x00 then (Inr True, s1)
         else if opcode = 0x10 then step_LDI s1
         else if opcode = 0x11 then step_MOV s1
         else if opcode = 0x12 then step_STR s1
         else if opcode = 0x20 then step_arith (+) s1
         else if opcode = 0x21 then step_arith (-) s1
         else if opcode = 0x30 then step_JMP s1
         else if opcode = 0x31 then step_Jcond True s1
         else if opcode = 0x32 then step_Jcond False s1
         else if opcode = 0x40 then step_OUT s1
         else if opcode = 0x41 then step_IN s1
         else if opcode = 0xFF then (Inr False, s1)
         else (Inr False,
               s1\<lparr>stdout := stdout s1 @ ''Unknown opcode '' @ fmt_02X opcode @ '' at ''
                                @ fmt_02X (pc s1 - 1) @ [CHR 0x0A]\<rparr>))"
    by (simp add: step_def f OP_defs Let_def)
  with ok1 m g p z i that show thesis
    by blast
qed


lemma nat_byte_and: "n < 256 \<Longrightarrow> int n AND 0xFF = int n"
  by (simp add: byte_and is_byte_def)

lemma step_encoding:
  assumes ok: "cpu_ok s" and v: "operands_valid i"
  defines "s0 \<equiv> (snd (load_bin s (encoding i) 0))\<lparr>pc := 0\<rparr>"
  shows "fst (step s0) = Inr (continues i)
         \<and> (reg (snd (step s0)), zero (snd (step s0)), pc (snd (step s0))) = predicted i s0"
proof -
  have len: "length (ram s) = 256" and rlen: "length (reg s) = 2"
    using ok by (simp_all add: cpu_ok_def)
  have ok0: "cpu_ok s0"
    unfolding s0_def using load_bin_inv[OF ok] by (simp add: cpu_ok_pc is_byte_def)
  have p0: "pc s0 = 0"
    by (simp add: s0_def)
  have rl0: "length (reg s0) = 2"
    using ok0 by (simp add: cpu_ok_def)
  obtain s1 where ok1: "cpu_ok s1" and m: "ram s1 = ram s0" and g: "reg s1 = reg s0"
    and p: "pc s1 = 1" and z: "zero s1 = zero s0" and inp: "stdin s1 = stdin s0"
    and st: "step s0 =
      (let opcode = ram s0 ! 0 in
         if opcode = 0x00 then (Inr True, s1)
         else if opcode = 0x10 then step_LDI s1
         else if opcode = 0x11 then step_MOV s1
         else if opcode = 0x12 then step_STR s1
         else if opcode = 0x20 then step_arith (+) s1
         else if opcode = 0x21 then step_arith (-) s1
         else if opcode = 0x30 then step_JMP s1
         else if opcode = 0x31 then step_Jcond True s1
         else if opcode = 0x32 then step_Jcond False s1
         else if opcode = 0x40 then step_OUT s1
         else if opcode = 0x41 then step_IN s1
         else if opcode = 0xFF then (Inr False, s1)
         else (Inr False,
               s1\<lparr>stdout := stdout s1 @ ''Unknown opcode '' @ fmt_02X opcode @ '' at ''
                                @ fmt_02X (pc s1 - 1) @ [CHR 0x0A]\<rparr>))"
    using step_dispatch[OF ok0] unfolding p0 by (auto simp: p0)
  note k = step_LDI_ok[OF ok1, unfolded p m g, simplified]
    step_MOV_ok[OF ok1, unfolded p m g, simplified]
    step_STR_ok[OF ok1, unfolded p m g, simplified]
    step_arith_ok[OF ok1, unfolded p m g, simplified]
    step_JMP_ok[OF ok1, unfolded p m g, simplified]
    step_Jcond_ok[OF ok1, unfolded p m g z, simplified]
    step_OUT_ok[OF ok1, unfolded p m g, simplified]
    step_IN_ok[OF ok1, unfolded p m g inp, simplified]
  show ?thesis
  proof (cases i)
    case I_NOP
    have r: "ram s0 ! 0 = 0"
      using len by (simp add: s0_def I_NOP load_bin_small)
    show ?thesis
      by (simp add: st r I_NOP g z p)
  next
    case (I_LDI r n)
    have r: "ram s0 ! 0 = 0x10" "ram s0 ! Suc 0 = int (reg_index r)" "ram s0 ! 2 = int n"
      using len v by (simp_all add: s0_def I_LDI load_bin_small reg_index_byte nat_byte_and)
    show ?thesis
      using rl0 by (simp add: st r I_LDI k reg_index_byte Let_def g z)
  next
    case (I_MOV r n)
    have r: "ram s0 ! 0 = 0x11" "ram s0 ! Suc 0 = int (reg_index r)" "ram s0 ! 2 = int n"
      using len v by (simp_all add: s0_def I_MOV load_bin_small reg_index_byte nat_byte_and)
    show ?thesis
      using rl0 by (simp add: st r I_MOV k reg_index_byte Let_def g z)
  next
    case (I_STR r n)
    have r: "ram s0 ! 0 = 0x12" "ram s0 ! Suc 0 = int (reg_index r)" "ram s0 ! 2 = int n"
      using len v by (simp_all add: s0_def I_STR load_bin_small reg_index_byte nat_byte_and)
    show ?thesis
      using rl0 by (simp add: st r I_STR k reg_index_byte Let_def g z)
  next
    case (I_ADD r1 r2)
    have r: "ram s0 ! 0 = 0x20" "ram s0 ! Suc 0 = int (reg_index r1)"
      "ram s0 ! 2 = int (reg_index r2)"
      using len by (simp_all add: s0_def I_ADD load_bin_small reg_index_byte)
    show ?thesis
      using rl0 by (simp add: st r I_ADD k reg_index_byte Let_def g z and255)
  next
    case (I_SUB r1 r2)
    have r: "ram s0 ! 0 = 0x21" "ram s0 ! Suc 0 = int (reg_index r1)"
      "ram s0 ! 2 = int (reg_index r2)"
      using len by (simp_all add: s0_def I_SUB load_bin_small reg_index_byte)
    show ?thesis
      using rl0 by (simp add: st r I_SUB k reg_index_byte Let_def g z and255)
  next
    case (I_JMP n)
    have r: "ram s0 ! 0 = 0x30" "ram s0 ! Suc 0 = int n"
      using len v by (simp_all add: s0_def I_JMP load_bin_small nat_byte_and)
    show ?thesis
      by (simp add: st r I_JMP k g z)
  next
    case (I_JZ n)
    have r: "ram s0 ! 0 = 0x31" "ram s0 ! Suc 0 = int n"
      using len v by (simp_all add: s0_def I_JZ load_bin_small nat_byte_and)
    show ?thesis
      by (simp add: st r I_JZ k g z)
  next
    case (I_JNZ n)
    have r: "ram s0 ! 0 = 0x32" "ram s0 ! Suc 0 = int n"
      using len v by (simp_all add: s0_def I_JNZ load_bin_small nat_byte_and)
    show ?thesis
      by (simp add: st r I_JNZ k g z)
  next
    case (I_OUT r)
    have r: "ram s0 ! 0 = 0x40" "ram s0 ! Suc 0 = int (reg_index r)"
      using len by (simp_all add: s0_def I_OUT load_bin_small reg_index_byte)
    show ?thesis
      by (simp add: st r I_OUT k g z reg_index_byte)
  next
    case (I_IN r)
    have r: "ram s0 ! 0 = 0x41" "ram s0 ! Suc 0 = int (reg_index r)"
      using len by (simp_all add: s0_def I_IN load_bin_small reg_index_byte)
    show ?thesis
      using rl0 by (cases "stdin s0") (simp_all add: st r I_IN k reg_index_byte Let_def g z and255)
  next
    case I_HLT
    have r: "ram s0 ! 0 = 0xFF"
      using len by (simp add: s0_def I_HLT load_bin_small)
    show ?thesis
      by (simp add: st r I_HLT g z p)
  qed
qed

text \<open>
  Claim C1. For every instruction of the twelve with a register A or B and a byte for
  each immediate or address, written as a source line with the byte in decimal: the
  assembler turns the single line into the encoding of section 4.1, and one step of the
  emulator on these bytes, loaded at address 0 into any machine of bytes, returns whether
  the machine goes on and leaves the registers, the zero flag and the program counter
  that section 4.3 predicts.
\<close>

theorem assemble_then_step:
  assumes ok: "cpu_ok s" and v: "operands_valid i"
  shows "assemble [source_line i] = Inr (encoding i)
         \<and> fst (step ((snd (load_bin s (encoding i) 0))\<lparr>pc := 0\<rparr>)) = Inr (continues i)
         \<and> (reg (snd (step ((snd (load_bin s (encoding i) 0))\<lparr>pc := 0\<rparr>))),
             zero (snd (step ((snd (load_bin s (encoding i) 0))\<lparr>pc := 0\<rparr>))),
             pc (snd (step ((snd (load_bin s (encoding i) 0))\<lparr>pc := 0\<rparr>))))
            = predicted i ((snd (load_bin s (encoding i) 0))\<lparr>pc := 0\<rparr>)"
  using assemble_source_line[OF v] step_encoding[OF ok v] by (intro conjI) simp_all

text \<open>\<open>LDI B, 200\<close> on a fresh machine.\<close>

theorem assemble_then_step_witness:
  "cpu_ok (CPU_init []) \<and> operands_valid (I_LDI RegB 200)
   \<and> source_line (I_LDI RegB 200) = ''LDI B, 200''
   \<and> assemble [''LDI B, 200''] = Inr [0x10, 1, 200]
   \<and> fst (step ((snd (load_bin (CPU_init []) [0x10, 1, 200] 0))\<lparr>pc := 0\<rparr>)) = Inr True
   \<and> (reg (snd (step ((snd (load_bin (CPU_init []) [0x10, 1, 200] 0))\<lparr>pc := 0\<rparr>))),
       zero (snd (step ((snd (load_bin (CPU_init []) [0x10, 1, 200] 0))\<lparr>pc := 0\<rparr>))),
       pc (snd (step ((snd (load_bin (CPU_init []) [0x10, 1, 200] 0))\<lparr>pc := 0\<rparr>))))
      = ([0, 200], True, 3)"
proof -
  have v: "operands_valid (I_LDI RegB 200)"
    by simp
  have sl: "source_line (I_LDI RegB 200) = ''LDI B, 200''"
    by (simp add: decimal.simps)
  have en: "encoding (I_LDI RegB 200) = [0x10, 1, 200]"
    by simp
  have pr: "predicted (I_LDI RegB 200) ((snd (load_bin (CPU_init []) [0x10, 1, 200] 0))\<lparr>pc := 0\<rparr>)
            = ([0, 200], True, 3)"
    by (simp add: load_bin_def CPU_init_def case_prod_beta)
  note th = assemble_then_step[OF cpu_ok_init v, of "[]", unfolded sl en pr]
  show ?thesis
    using cpu_ok_init[of "[]"] v sl th by (intro conjI) simp_all
qed

subsection \<open>References to labels\<close>

lemma strip_idem: "strip (strip s) = strip s"
proof (cases "strip s = []")
  case True
  have "strip [] = []"
    by (simp add: strip_def)
  then show ?thesis
    by (simp only: True)
next
  case False
  define t where "t = dropWhile isspace s"
  define u where "u = rev (dropWhile isspace (rev t))"
  have su: "strip s = u"
    by (simp add: strip_def t_def u_def)
  have une: "u \<noteq> []"
    using False su by simp
  have "rev (takeWhile isspace (rev t) @ dropWhile isspace (rev t)) = rev (rev t)"
    by (simp only: takeWhile_dropWhile_id)
  then have "rev (dropWhile isspace (rev t)) @ rev (takeWhile isspace (rev t)) = t"
    by (simp only: rev_append rev_rev_ident)
  then have tu: "t = u @ rev (takeWhile isspace (rev t))"
    by (simp only: u_def)
  have tne: "t \<noteq> []"
    using tu une by auto
  have "hd t = hd u"
    using tu une by (metis hd_append2)
  moreover have "\<not> isspace (hd t)"
    using tne unfolding t_def by (rule hd_dropWhile)
  ultimately have h: "\<not> isspace (hd u)"
    by simp
  have dne: "dropWhile isspace (rev t) \<noteq> []"
    using une by (simp add: u_def)
  have "last u = hd (dropWhile isspace (rev t))"
    using dne by (simp add: u_def last_rev)
  moreover have "\<not> isspace (hd (dropWhile isspace (rev t)))"
    using dne by (rule hd_dropWhile)
  ultimately have l: "\<not> isspace (last u)"
    by simp
  show ?thesis
    unfolding su using une h l by (rule strip_id)
qed

lemma parse_value_label:
  assumes "labels (strip a) = Some v" and "\<not> literal_shaped (strip a)"
  shows "parse_value a labels = Inr v" and "parse_value (strip a) labels = Inr v"
proof -
  have n1: "\<not> (startswith (strip a) [SQ] \<and> endswith (strip a) [SQ] \<and> length (strip a) = 3)"
    and n2: "\<not> startswith (strip a) ''0x''"
    and n3: "\<not> (isdigit (strip a) \<or> startswith (strip a) ''-'' \<and> isdigit (tl (strip a)))"
    using assms(2) unfolding literal_shaped_def by blast+
  have "parse_value t labels = Inr v" if "strip t = strip a" for t
    by (simp only: parse_value_def Let_def that if_not_P[OF n1] if_not_P[OF n2]
        if_not_P[OF n3] assms(1) option.case)
  then show "parse_value a labels = Inr v" and "parse_value (strip a) labels = Inr v"
    by (simp_all add: strip_idem)
qed

text \<open>
  Claim C9. A label the first pass has bound to any value, also one above 255, raises no
  error where it is referred to: for every label table, an operand whose stripped text is
  a key of the table and is not read as a character or a number makes the second pass
  emit the bound value modulo 256, in \<open>JMP\<close>, \<open>JZ\<close>, \<open>JNZ\<close>, \<open>LDI\<close>, \<open>MOV\<close>, \<open>STR\<close>
  and, unless it is quoted as a string, in \<open>DB\<close>.
\<close>

theorem label_reference_wraps:
  assumes lab: "labels (strip a) = Some v" and shape: "\<not> literal_shaped (strip a)"
  shows "emit labels (n, ''JMP'', [a]) = Inr [OP_JMP, v mod 256]
         \<and> emit labels (n, ''JZ'', [a]) = Inr [OP_JZ, v mod 256]
         \<and> emit labels (n, ''JNZ'', [a]) = Inr [OP_JNZ, v mod 256]
         \<and> emit labels (n, ''LDI'', [reg_token r, a]) = Inr [OP_LDI, int (reg_index r), v mod 256]
         \<and> emit labels (n, ''MOV'', [reg_token r, a]) = Inr [OP_MOV, int (reg_index r), v mod 256]
         \<and> emit labels (n, ''STR'', [reg_token r, a]) = Inr [OP_STR, int (reg_index r), v mod 256]
         \<and> (\<not> (startswith (strip a) [DQ] \<and> endswith (strip a) [DQ])
              \<longrightarrow> db_bytes labels [a] = Inr [v mod 256])"
proof -
  note pv = parse_value_label[of labels a v, OF lab shape]
  have j: "emit_jump opc labels [a] = Inr [opc, v mod 256]" for opc
    by (simp add: emit_jump_def getitem_def pv and255)
  have rv: "emit_reg_value opc labels [reg_token r, a] = Inr [opc, int (reg_index r), v mod 256]"
    for opc
    by (simp add: emit_reg_value_def getitem_def pv and255 reg_token_get)
  have up: "upper ''JMP'' = ''JMP''" "upper ''JZ'' = ''JZ''" "upper ''JNZ'' = ''JNZ''"
    "upper ''LDI'' = ''LDI''" "upper ''MOV'' = ''MOV''" "upper ''STR'' = ''STR''"
    by (simp_all add: upper_def upper_char_def)
  have db: "db_bytes labels [a] = Inr [v mod 256]"
    if "\<not> (startswith (strip a) [DQ] \<and> endswith (strip a) [DQ])"
    by (simp only: db_bytes.simps Let_def if_not_P[OF that] pv sum.case) (simp add: and255)
  show ?thesis
    using db by (simp add: emit_def up j rv)
qed

text \<open>
  The label \<open>end\<close> bound to 258, as the first pass binds it after 86 instructions of three
  bytes: the reference in \<open>JMP end\<close> is emitted as 2.
\<close>

theorem label_reference_wraps_witness:
  "[''end'' \<mapsto> 258] (strip ''end'') = Some (258::int)
   \<and> \<not> literal_shaped (strip ''end'')
   \<and> emit [''end'' \<mapsto> 258] (258, ''JMP'', [''end'']) = Inr [0x30, 2]
   \<and> emit [''end'' \<mapsto> 258] (258, ''LDI'', [''B'', ''end'']) = Inr [0x10, 1, 2]
   \<and> db_bytes [''end'' \<mapsto> 258] [''end''] = Inr [2]
   \<and> label_address (replicate 86 ''LDI A, 0'' @ [''end:'', ''JMP end'']) ''end'' = Some 258
   \<and> assemble (replicate 86 ''LDI A, 0'' @ [''end:'', ''JMP end''])
       = Inr (concat (replicate 86 [0x10, 0, 0]) @ [0x30, 2])"
proof -
  have s: "strip ''end'' = ''end''"
    by (simp add: strip_def isspace_def)
  have l: "[''end'' \<mapsto> 258] (strip ''end'') = Some (258::int)"
    by (simp add: s)
  have sh: "\<not> literal_shaped (strip ''end'')"
    by (simp add: s literal_shaped_def startswith_def endswith_def isdigit_def isdigit_char_def
        SQ_def)
  have d: "\<not> (startswith (strip ''end'') [DQ] \<and> endswith (strip ''end'') [DQ])"
    by (simp add: s startswith_def DQ_def)
  have e: "(258::int) mod 256 = 2"
    by simp
  note th = label_reference_wraps[of "[''end'' \<mapsto> 258]" "''end''" 258 258 RegB, OF l sh,
      unfolded e OP_defs reg_token.simps reg_index.simps]
  have 1: "emit [''end'' \<mapsto> 258] (258, ''JMP'', [''end'']) = Inr [0x30, 2]"
    using th[THEN conjunct1] .
  have 2: "emit [''end'' \<mapsto> 258] (258, ''LDI'', [''B'', ''end'']) = Inr [0x10, 1, 2]"
    using th[THEN conjunct2, THEN conjunct2, THEN conjunct2, THEN conjunct1] by simp
  have 3: "db_bytes [''end'' \<mapsto> 258] [''end''] = Inr [2]"
    using th[THEN conjunct2, THEN conjunct2, THEN conjunct2, THEN conjunct2, THEN conjunct2,
        THEN conjunct2, THEN mp, OF d] .
  have 4: "label_address (replicate 86 ''LDI A, 0'' @ [''end:'', ''JMP end'']) ''end''
           = Some 258"
    by code_simp
  have 5: "assemble (replicate 86 ''LDI A, 0'' @ [''end:'', ''JMP end''])
           = Inr (concat (replicate 86 [0x10, 0, 0]) @ [0x30, 2])"
    by code_simp
  show ?thesis
    using l sh 1 2 3 4 5 by (intro conjI)
qed

end
